theory Spec2Isabelle
  imports Main "HOL-Library.Sublist"
begin

section \<open>C strings\<close>

text \<open>
  A C string is modelled by the list of its bytes before the terminating NUL.  A
  pointer into the string is the suffix that starts there, so \<open>sym + i\<close> is
  \<open>drop i sym\<close> and the empty suffix points at the terminator.  \<open>ch s i\<close> is
  the read \<open>s[i]\<close>: it yields the terminator at index \<open>length s\<close>.  The code
  never reads behind a terminator it has seen (every test sequence short-circuits on
  the first mismatch), so the value chosen further out is never observed.
\<close>

definition NUL :: char where
  "NUL = CHR 0x00"

definition ch :: "string \<Rightarrow> nat \<Rightarrow> char" where
  "ch s i = (if i < length s then s ! i else NUL)"

text \<open>\<open>HChar\<close> code of a character, for the range tests and the digit arithmetic.\<close>

definition code :: "char \<Rightarrow> nat" where
  "code c = of_char c"

definition in_range :: "char \<Rightarrow> char \<Rightarrow> char \<Rightarrow> bool" where
  "in_range lo hi c = (code lo \<le> code c \<and> code c \<le> code hi)"

text \<open>
  Modelled from the spec: \<open>VG_(isdigit)\<close> is declared in \<open>pub_core_libcbase.h\<close>,
  which is not among the sources.  The specification's header grammar asks for a
  decimal digit where the code calls it, so it is the test for \<open>0\<close>--\<open>9\<close>.
\<close>

definition VG_isdigit :: "char \<Rightarrow> bool" where
  "VG_isdigit c = in_range (CHR ''0'') (CHR ''9'') c"

text \<open>
  Modelled from the spec: \<open>VG_(strncmp)\<close> is declared in \<open>pub_core_libcbase.h\<close>,
  which is not among the sources.  The code calls it where the specification asks for a
  literal sequence at a position, so \<open>VG_(strncmp)(a, b, n) == 0\<close> says that the first
  \<open>n\<close> bytes of the two strings agree, where a string that ends earlier only agrees
  with one ending at the same place.
\<close>

definition strncmp_eq :: "string \<Rightarrow> string \<Rightarrow> nat \<Rightarrow> bool" where
  "strncmp_eq a b n = (take n a = take n b)"


section \<open>Demangling of Z-encoded names\<close>

text \<open>Everything that ends the run instead of returning.\<close>

datatype abort =
    Assert_VG_Z_prefix      \<comment> \<open>\<open>vg_assert2(0, "symbol with a 'VG_Z_' prefix ...")\<close>\<close>
  | Assert_eclassTag        \<comment> \<open>\<open>vg_assert(*eclassTag >= 0 && *eclassTag <= 9999)\<close>\<close>
  | Assert_eclassPrio       \<comment> \<open>\<open>vg_assert(*eclassPrio >= 0 && *eclassPrio <= 9)\<close>\<close>
  | Assert_delimiter        \<comment> \<open>\<open>vg_assert(sym[i] == '_')\<close>\<close>
  | Assert_never_after      \<comment> \<open>\<open>vg_assert(out <= never_after)\<close>\<close>
  | Null_dereference        \<comment> \<open>\<open>VG_(strlen)\<close> of a NULL pointer\<close>

text \<open>Which of the optional OUT pointers the caller passed (non-NULL).\<close>

record z_request =
  want_so :: bool
  want_isWrap :: bool
  want_eclassTag :: bool
  want_eclassPrio :: bool

text \<open>
  What the caller can see afterwards: the return value, the strings \<open>*so\<close> and
  \<open>*fn\<close> point to (\<open>*so\<close> is not written when \<open>so\<close> is NULL), and the three
  scalar outputs, \<open>None\<close> as long as the function has not stored to them.
\<close>

record z_out =
  ret :: bool
  so :: "string option"
  fn :: string
  isWrap :: "bool option"
  eclassTag :: "int option"
  eclassPrio :: "int option"

text \<open>The \<open>switch\<close> of both decoding loops; \<open>None\<close> is its \<open>default\<close> branch.\<close>

definition z_escape :: "char \<Rightarrow> char option" where
  "z_escape c =
     (if c = CHR ''a'' then Some (CHR ''*'')
      else if c = CHR ''c'' then Some (CHR '':'')
      else if c = CHR ''d'' then Some (CHR ''.'')
      else if c = CHR ''h'' then Some (CHR ''-'')
      else if c = CHR ''p'' then Some (CHR ''+'')
      else if c = CHR ''s'' then Some (CHR '' '')
      else if c = CHR ''u'' then Some (CHR ''_'')
      else if c = CHR ''A'' then Some (CHR ''@'')
      else if c = CHR ''D'' then Some (CHR ''$'')
      else if c = CHR ''L'' then Some (CHR ''('')
      else if c = CHR ''P'' then Some (CHR ''%'')
      else if c = CHR ''R'' then Some (CHR '')'')
      else if c = CHR ''S'' then Some (CHR ''/'')
      else if c = CHR ''Z'' then Some (CHR ''Z'')
      else None)"

text \<open>
  \<open>EMITSO(ch)\<close> appends to \<open>sobuf\<close> only when \<open>so\<close> is non-NULL; the buffers are
  modelled by their contents before the terminator that every \<open>EMIT\<close> rewrites.
\<close>

definition EMITSO :: "bool \<Rightarrow> string \<Rightarrow> char \<Rightarrow> string" where
  "EMITSO so_given sobuf c = (if so_given then sobuf @ [c] else sobuf)"

definition EMITFN :: "string \<Rightarrow> char \<Rightarrow> string" where
  "EMITFN fnbuf c = fnbuf @ [c]"

text \<open>
  The soname loop, started at \<open>sym + 12\<close>.  It returns \<open>error\<close>, the buffer and the
  position it stopped at: on \<open>break\<close> that is the delimiter.
\<close>

fun soname_loop :: "bool \<Rightarrow> string \<Rightarrow> string \<Rightarrow> bool \<times> string \<times> string" where
  "soname_loop so_given [] sobuf = (True, sobuf, [])"
| "soname_loop so_given (c # cs) sobuf =
     (if c = CHR ''_'' then (False, sobuf, c # cs)
      else if c \<noteq> CHR ''Z'' then soname_loop so_given cs (EMITSO so_given sobuf c)
      else (case z_escape (ch cs 0) of
              None \<Rightarrow> (True, sobuf, cs)
            | Some e \<Rightarrow> soname_loop so_given (drop 1 cs) (EMITSO so_given sobuf e)))"

text \<open>The function name, copied (\<open>fn_is_encoded\<close> false).\<close>

fun fnname_copy_loop :: "string \<Rightarrow> string \<Rightarrow> string" where
  "fnname_copy_loop [] fnbuf = fnbuf"
| "fnname_copy_loop (c # cs) fnbuf = fnname_copy_loop cs (EMITFN fnbuf c)"

text \<open>The function name, decoded; it returns \<open>error\<close> and the buffer.\<close>

fun fnname_loop :: "string \<Rightarrow> string \<Rightarrow> bool \<times> string" where
  "fnname_loop [] fnbuf = (False, fnbuf)"
| "fnname_loop (c # cs) fnbuf =
     (if c \<noteq> CHR ''Z'' then fnname_loop cs (EMITFN fnbuf c)
      else (case z_escape (ch cs 0) of
              None \<Rightarrow> (True, fnbuf)
            | Some e \<Rightarrow> fnname_loop (drop 1 cs) (EMITFN fnbuf e)))"

text \<open>\<open>(Int)sym[k] - '0'\<close>\<close>

definition digit_val :: "char \<Rightarrow> int" where
  "digit_val c = int (code c) - int (code (CHR ''0''))"

definition header_valid :: "string \<Rightarrow> bool" where
  "header_valid symb =
     (let valid =
            (ch symb 0 = CHR ''_''
           \<and> ch symb 1 = CHR ''v''
           \<and> ch symb 2 = CHR ''g''
           \<and> (ch symb 3 = CHR ''r'' \<or> ch symb 3 = CHR ''w'')
           \<and> VG_isdigit (ch symb 4)
           \<and> VG_isdigit (ch symb 5)
           \<and> VG_isdigit (ch symb 6)
           \<and> VG_isdigit (ch symb 7)
           \<and> VG_isdigit (ch symb 8)
           \<and> ch symb 9 = CHR ''Z''
           \<and> (ch symb 10 = CHR ''Z'' \<or> ch symb 10 = CHR ''U'')
           \<and> ch symb 11 = CHR ''_'')
      in if valid \<and> ch symb 4 = CHR ''0'' \<and> ch symb 5 = CHR ''0'' \<and> ch symb 6 = CHR ''0''
            \<and> ch symb 7 = CHR ''0'' \<and> ch symb 8 \<noteq> CHR ''0''
         then False else valid)"

definition is_VG_Z_prefixed :: "string \<Rightarrow> bool" where
  "is_VG_Z_prefixed symb =
     (ch symb 12 = CHR ''V'' \<and> ch symb 13 = CHR ''G'' \<and> ch symb 14 = CHR ''_''
      \<and> ch symb 15 = CHR ''Z'' \<and> ch symb 16 = CHR ''_'')"

text \<open>
  The part of \<open>VG_(maybe_Z_demangle)\<close> after the header: the two scans and the
  exit at label \<open>out\<close>.  \<open>o1\<close> holds the outputs stored so far.
\<close>

definition z_scan :: "string \<Rightarrow> z_request \<Rightarrow> z_out \<Rightarrow> abort + z_out" where
  "z_scan symb rq o1 =
     (let fn_is_encoded = (ch symb 10 = CHR ''Z'') in
      case soname_loop (want_so rq) (drop 12 symb) [] of
        (True, sobuf, rest) \<Rightarrow>
          Inr (o1\<lparr>ret := False, so := (if want_so rq then Some sobuf else None), fn := []\<rparr>)
      | (False, sobuf, rest) \<Rightarrow>
          if ch rest 0 \<noteq> CHR ''_'' then Inl Assert_delimiter
          else if \<not> fn_is_encoded then
            Inr (o1\<lparr>ret := True, so := (if want_so rq then Some sobuf else None),
                    fn := fnname_copy_loop (drop 1 rest) []\<rparr>)
          else
            (case fnname_loop (drop 1 rest) [] of
               (error, fnbuf) \<Rightarrow>
                 Inr (o1\<lparr>ret := \<not> error, so := (if want_so rq then Some sobuf else None),
                         fn := fnbuf\<rparr>)))"

definition VG_maybe_Z_demangle :: "string \<Rightarrow> z_request \<Rightarrow> abort + z_out" where
  "VG_maybe_Z_demangle symb rq =
     (let o0 = \<lparr>ret = False, so = (if want_so rq then Some [] else None), fn = [],
                isWrap = None, eclassTag = None, eclassPrio = None\<rparr>
      in if \<not> header_valid symb then Inr o0
      else
        let o1 = (if want_isWrap rq then o0\<lparr>isWrap := Some (ch symb 3 = CHR ''w'')\<rparr> else o0);
            tag = 1000 * digit_val (ch symb 4) + 100 * digit_val (ch symb 5)
                  + 10 * digit_val (ch symb 6) + 1 * digit_val (ch symb 7);
            o2 = (if want_eclassTag rq then o1\<lparr>eclassTag := Some tag\<rparr> else o1);
            prio = digit_val (ch symb 8);
            o3 = (if want_eclassPrio rq then o2\<lparr>eclassPrio := Some prio\<rparr> else o2)
        in if want_eclassTag rq \<and> \<not> (0 \<le> tag \<and> tag \<le> 9999) then Inl Assert_eclassTag
           else if want_eclassPrio rq \<and> \<not> (0 \<le> prio \<and> prio \<le> 9) then Inl Assert_eclassPrio
           else if is_VG_Z_prefixed symb then Inl Assert_VG_Z_prefix
           else z_scan symb rq o3)"


section \<open>Demangling of Rust names\<close>

definition hash_prefix :: string where
  "hash_prefix = ''::h''"

definition hash_prefix_len :: nat where
  "hash_prefix_len = 3"

definition hash_len :: nat where
  "hash_len = 16"

text \<open>
  The first loop of \<open>is_prefixed_hash\<close>; its first argument is \<open>end - str\<close>.
  \<open>None\<close> is the \<open>return False\<close> on a byte that is no lowercase hex digit.
\<close>

fun hash_digits_loop :: "nat \<Rightarrow> string \<Rightarrow> bool list \<Rightarrow> bool list option" where
  "hash_digits_loop 0 str seen = Some seen"
| "hash_digits_loop (Suc n) str seen =
     (let c = ch str 0 in
      if in_range (CHR ''0'') (CHR ''9'') c
        then hash_digits_loop n (drop 1 str) (seen[code c - code (CHR ''0'') := True])
      else if in_range (CHR ''a'') (CHR ''f'') c
        then hash_digits_loop n (drop 1 str) (seen[code c - code (CHR ''a'') + 10 := True])
      else None)"

text \<open>The second loop: how many of \<open>seen[0..15]\<close> are set.\<close>

definition count_seen :: "bool list \<Rightarrow> int" where
  "count_seen seen = int (length (filter (\<lambda>i. seen ! i) [0..<16]))"

definition is_prefixed_hash :: "string \<Rightarrow> bool" where
  "is_prefixed_hash str =
     (if \<not> strncmp_eq str hash_prefix hash_prefix_len then False
      else case hash_digits_loop hash_len (drop hash_prefix_len str) (replicate 16 False) of
             None \<Rightarrow> False
           | Some seen \<Rightarrow> (let count = count_seen seen in 5 \<le> count \<and> count \<le> 15))"

text \<open>The three groups of \<open>strncmp\<close> tests in the \<open>'$'\<close> case of \<open>looks_like_rust\<close>.\<close>

definition dollar3 :: "string \<Rightarrow> bool" where
  "dollar3 str = strncmp_eq str ''$C$'' 3"

definition dollar4 :: "string \<Rightarrow> bool" where
  "dollar4 str =
     (strncmp_eq str ''$SP$'' 4 \<or> strncmp_eq str ''$BP$'' 4 \<or> strncmp_eq str ''$RF$'' 4
      \<or> strncmp_eq str ''$LT$'' 4 \<or> strncmp_eq str ''$GT$'' 4 \<or> strncmp_eq str ''$LP$'' 4
      \<or> strncmp_eq str ''$RP$'' 4)"

definition dollar5 :: "string \<Rightarrow> bool" where
  "dollar5 str =
     (strncmp_eq str ''$u20$'' 5 \<or> strncmp_eq str ''$u22$'' 5 \<or> strncmp_eq str ''$u27$'' 5
      \<or> strncmp_eq str ''$u2b$'' 5 \<or> strncmp_eq str ''$u3b$'' 5 \<or> strncmp_eq str ''$u5b$'' 5
      \<or> strncmp_eq str ''$u5d$'' 5 \<or> strncmp_eq str ''$u7b$'' 5 \<or> strncmp_eq str ''$u7d$'' 5
      \<or> strncmp_eq str ''$u7e$'' 5)"

text \<open>\<open>case 'a' ... 'z': case 'A' ... 'Z': case '0' ... '9':\<close>\<close>

definition alnum :: "char \<Rightarrow> bool" where
  "alnum c = (in_range (CHR ''a'') (CHR ''z'') c \<or> in_range (CHR ''A'') (CHR ''Z'') c
              \<or> in_range (CHR ''0'') (CHR ''9'') c)"

text \<open>
  \<open>looks_like_rust(str, len)\<close>.  The second argument is \<open>end - str\<close>, the loop runs
  while it is positive; a token that carries \<open>str\<close> beyond \<open>end\<close> ends the loop as
  well, which the truncating subtraction gives.
\<close>

function looks_like_rust :: "string \<Rightarrow> nat \<Rightarrow> bool" where
  "looks_like_rust str len =
     (if len = 0 then True
      else if ch str 0 = CHR ''$'' then
        (if dollar3 str then looks_like_rust (drop 3 str) (len - 3)
         else if dollar4 str then looks_like_rust (drop 4 str) (len - 4)
         else if dollar5 str then looks_like_rust (drop 5 str) (len - 5)
         else False)
      else if ch str 0 = CHR ''.'' then
        (if strncmp_eq str ''...'' 3 then False
         else looks_like_rust (drop 1 str) (len - 1))
      else if alnum (ch str 0) \<or> ch str 0 = CHR ''_'' \<or> ch str 0 = CHR '':''
        then looks_like_rust (drop 1 str) (len - 1)
      else False)"
  by pat_completeness auto
termination
  by (relation "measure snd") auto

declare looks_like_rust.simps [simp del]

definition rust_is_mangled :: "string option \<Rightarrow> bool" where
  "rust_is_mangled p =
     (case p of
        None \<Rightarrow> False
      | Some symb \<Rightarrow>
          (let len = length symb in
           if len \<le> hash_prefix_len + hash_len then False
           else let len_without_hash = len - (hash_prefix_len + hash_len) in
             if \<not> is_prefixed_hash (drop len_without_hash symb) then False
             else looks_like_rust symb len_without_hash))"

text \<open>
  \<open>rust_demangle_sym\<close> rewrites its argument in place and reads bytes it may have
  written before (\<open>in[-1]\<close>), so here the memory block is explicit: the list of all
  \<open>strlen + 1\<close> bytes, terminator included, with \<open>in\<close> and \<open>out\<close> as indices.

  \<open>unescape\<close> returns the block and both cursors when the sequence is there.
\<close>

definition unescape :: "string \<Rightarrow> nat \<Rightarrow> nat \<Rightarrow> string \<Rightarrow> char \<Rightarrow> (string \<times> nat \<times> nat) option" where
  "unescape buf inp outp seq val =
     (let len = length seq in
      if \<not> strncmp_eq (drop inp buf) seq len then None
      else Some (buf[outp := val], inp + len, outp + 1))"

text \<open>The operands of the \<open>||\<close> chain of the \<open>'$'\<close> case, in its order.\<close>

definition rust_escapes :: "(string \<times> char) list" where
  "rust_escapes =
     [(''$C$'', CHR '',''), (''$SP$'', CHR ''@''), (''$BP$'', CHR ''*''), (''$RF$'', CHR ''&''),
      (''$LT$'', CHR ''<''), (''$GT$'', CHR ''>''), (''$LP$'', CHR ''(''), (''$RP$'', CHR '')''),
      (''$u20$'', CHR '' ''), (''$u22$'', CHR 0x22), (''$u27$'', CHR 0x27), (''$u2b$'', CHR ''+''),
      (''$u3b$'', CHR '';''), (''$u5b$'', CHR ''[''), (''$u5d$'', CHR '']''), (''$u7b$'', CHR ''{''),
      (''$u7d$'', CHR ''}''), (''$u7e$'', CHR ''~'')]"

fun unescape_chain :: "string \<Rightarrow> nat \<Rightarrow> nat \<Rightarrow> (string \<times> char) list \<Rightarrow> (string \<times> nat \<times> nat) option" where
  "unescape_chain buf inp outp [] = None"
| "unescape_chain buf inp outp ((seq, val) # rest) =
     (case unescape buf inp outp seq val of
        Some r \<Rightarrow> Some r
      | None \<Rightarrow> unescape_chain buf inp outp rest)"

lemma unescape_chain_advances:
  "unescape_chain buf inp outp tbl = Some (buf', inp', outp') \<Longrightarrow> [] \<notin> fst ` set tbl \<Longrightarrow> inp < inp'"
  by (induction tbl) (auto simp: unescape_def Let_def split: option.splits if_splits)

lemma rust_escapes_advance:
  "unescape_chain buf inp outp rust_escapes = Some (buf', inp', outp') \<Longrightarrow> inp < inp'"
  by (erule unescape_chain_advances) (simp add: rust_escapes_def)

text \<open>
  The \<open>switch\<close> that is the body of the \<open>while (in < end)\<close> loop: the block and
  the cursors after it, or \<open>None\<close> for \<open>goto fail\<close>.
\<close>

definition rust_step :: "string \<Rightarrow> nat \<Rightarrow> nat \<Rightarrow> (string \<times> nat \<times> nat) option" where
  "rust_step buf inp outp =
     (if buf ! inp = CHR ''$'' then unescape_chain buf inp outp rust_escapes
      else if buf ! inp = CHR ''_'' then
        (if (inp = 0 \<or> buf ! (inp - 1) = CHR '':'') \<and> buf ! (inp + 1) = CHR ''$''
           then Some (buf, inp + 1, outp)
         else Some (buf[outp := buf ! inp], inp + 1, outp + 1))
      else if buf ! inp = CHR ''.'' then
        (if buf ! (inp + 1) = CHR ''.''
           then Some (buf[outp := CHR '':'', outp + 1 := CHR '':''], inp + 2, outp + 2)
         else Some (buf[outp := CHR ''-''], inp + 1, outp + 1))
      else if alnum (buf ! inp) \<or> buf ! inp = CHR '':''
        then Some (buf[outp := buf ! inp], inp + 1, outp + 1)
      else None)"

lemma rust_step_advances:
  "rust_step buf inp outp = Some (buf', inp', outp') \<Longrightarrow> inp < inp'"
  by (auto simp add: rust_step_def dest: rust_escapes_advance split: if_splits)

text \<open>
  The loop itself.  \<open>endp\<close> is \<open>end - sym\<close>, negative when the string is shorter
  than the hash; the result is whether the loop left through \<open>goto fail\<close>, the block
  and \<open>out\<close>.
\<close>

function rust_scan :: "string \<Rightarrow> nat \<Rightarrow> nat \<Rightarrow> int \<Rightarrow> bool \<times> string \<times> nat" where
  "rust_scan buf inp outp endp =
     (if \<not> int inp < endp then (False, buf, outp)
      else case rust_step buf inp outp of
             None \<Rightarrow> (True, buf, outp)
           | Some (buf', inp', outp') \<Rightarrow> rust_scan buf' inp' outp' endp)"
  by pat_completeness auto
termination
  by (relation "measure (\<lambda>(buf, inp, outp, endp). nat (endp - int inp))")
     (auto dest: rust_step_advances)

declare rust_scan.simps [simp del]

text \<open>
  \<open>rust_demangle_sym\<close> up to its last assertion: whether label \<open>fail\<close> was reached,
  the block and the final \<open>out\<close>.
\<close>

record rust_run =
  went_to_fail :: bool
  buffer :: string
  out_cursor :: nat

definition rust_demangle_body :: "string \<Rightarrow> rust_run" where
  "rust_demangle_body symb =
     (let sym_len = length symb;
          endp = int sym_len - int (hash_prefix_len + hash_len)
      in case rust_scan (symb @ [NUL]) 0 0 endp of
           (failed, buf, outp) \<Rightarrow>
             (let buf1 = (if failed then buf[outp := CHR ''?''] else buf);
                  out1 = (if failed then outp + 1 else outp)
              in \<lparr>went_to_fail = failed, buffer = buf1[out1 := NUL], out_cursor = out1 + 1\<rparr>))"

text \<open>
  The whole function on a pointer: nothing happens for NULL, otherwise the result is
  the rewritten block unless \<open>vg_assert(out <= never_after)\<close> fires.
\<close>

definition rust_demangle_sym :: "string option \<Rightarrow> abort + string option" where
  "rust_demangle_sym p =
     (case p of
        None \<Rightarrow> Inr None
      | Some symb \<Rightarrow>
          (let never_after = length symb; r = rust_demangle_body symb
           in if out_cursor r \<le> never_after then Inr (Some (buffer r))
              else Inl Assert_never_after))"

text \<open>The C string a block holds.\<close>

definition c_string :: "string \<Rightarrow> string" where
  "c_string buf = takeWhile (\<lambda>c. c \<noteq> NUL) buf"


section \<open>The entry point\<close>

text \<open>
  \<open>VG_(demangle)\<close> keeps one heap block in the static pointer \<open>demangled\<close>
  (\<open>None\<close> is NULL, otherwise the string the block holds).  The calls it makes to
  the allocator and to the C++ demangler are recorded in order.
\<close>

datatype event =
    Arena_free string        \<comment> \<open>\<open>VG_(arena_free)(VG_AR_DEMANGLE, demangled)\<close>, with the block's string\<close>
  | Cplus_demangle string    \<comment> \<open>\<open>ML_(cplus_demangle)(orig, ...)\<close>, with its argument\<close>

text \<open>
  Where \<open>*result\<close> points: to \<open>orig\<close> as it stands before stage 1 (the caller's
  string, or NULL, or the function name left by the Z-decoder), or to the heap block
  \<open>demangled\<close>.
\<close>

datatype result_ptr =
    To_orig "string option"
  | To_demangled string

record demangle_out =
  result :: result_ptr
  demangled_after :: "string option"
  events :: "event list"

text \<open>The first step: \<open>orig\<close> after the attempt to undo the Z-encoding.\<close>

definition undo_Z :: "bool \<Rightarrow> string option \<Rightarrow> abort + string option" where
  "undo_Z do_z_demangling orig =
     (if do_z_demangling then
        (case orig of
           None \<Rightarrow> Inl Null_dereference
         | Some symb \<Rightarrow>
             (case VG_maybe_Z_demangle symb
                     \<lparr>want_so = False, want_isWrap = False, want_eclassTag = False,
                      want_eclassPrio = False\<rparr> of
                Inl a \<Rightarrow> Inl a
              | Inr r \<Rightarrow> Inr (if ret r then Some (fn r) else orig)))
      else Inr orig)"

text \<open>
  The body of the stage-1 branch, entered with a non-NULL \<open>orig\<close>.
  \<open>ML_(cplus_demangle)\<close>, the libiberty demangler, is a parameter.
\<close>

definition stage1 ::
  "(string \<Rightarrow> string option) \<Rightarrow> string option \<Rightarrow> string \<Rightarrow> abort + demangle_out" where
  "stage1 cplus_demangle demangled orig =
     (let freed = (case demangled of Some d \<Rightarrow> [Arena_free d] | None \<Rightarrow> []);
          called = [Cplus_demangle orig]
      in case cplus_demangle orig of
           None \<Rightarrow>
             Inr \<lparr>result = To_orig (Some orig), demangled_after = None,
                  events = freed @ called\<rparr>
         | Some d \<Rightarrow>
             if rust_is_mangled (Some d) then
               (case rust_demangle_sym (Some d) of
                  Inl a \<Rightarrow> Inl a
                | Inr None \<Rightarrow>
                    Inr \<lparr>result = To_demangled d, demangled_after = Some d,
                         events = freed @ called\<rparr>
                | Inr (Some blk) \<Rightarrow>
                    Inr \<lparr>result = To_demangled (c_string blk),
                         demangled_after = Some (c_string blk),
                         events = freed @ called\<rparr>)
             else
               Inr \<lparr>result = To_demangled d, demangled_after = Some d,
                    events = freed @ called\<rparr>)"

text \<open>
  \<open>VG_(demangle)\<close>.  \<open>VG_(clo_demangle)\<close> is a command line option, a parameter
  here, as is the value of the static \<open>demangled\<close> on entry.
\<close>

definition VG_demangle ::
  "bool \<Rightarrow> (string \<Rightarrow> string option) \<Rightarrow> string option
     \<Rightarrow> bool \<Rightarrow> bool \<Rightarrow> string option \<Rightarrow> abort + demangle_out" where
  "VG_demangle clo_demangle cplus_demangle demangled do_cxx_demangling do_z_demangling orig0 =
     (case undo_Z do_z_demangling orig0 of
        Inl a \<Rightarrow> Inl a
      | Inr None \<Rightarrow>
          Inr \<lparr>result = To_orig None, demangled_after = demangled, events = []\<rparr>
      | Inr (Some orig) \<Rightarrow>
          if do_cxx_demangling \<and> clo_demangle
             \<and> ch orig 0 = CHR ''_'' \<and> ch orig 1 = CHR ''Z''
          then stage1 cplus_demangle demangled orig
          else Inr \<lparr>result = To_orig (Some orig), demangled_after = demangled, events = []\<rparr>)"


section \<open>The specification's vocabulary\<close>

subsection \<open>Z-encoded names\<close>

text \<open>
  The definitions of this section follow the words of the specification, not the
  code.  A decimal digit is one of the ten digit characters, and a digit string is
  read positionally.
\<close>

definition decimal_digits :: string where
  "decimal_digits = ''0123456789''"

definition is_decimal_digit :: "char \<Rightarrow> bool" where
  "is_decimal_digit c = (c \<in> set decimal_digits)"

definition digit_of :: "char \<Rightarrow> int" where
  "digit_of c = int (length (takeWhile (\<lambda>d. d \<noteq> c) decimal_digits))"

definition read_decimal :: "string \<Rightarrow> int" where
  "read_decimal s = foldl (\<lambda>acc c. 10 * acc + digit_of c) 0 s"

text \<open>
  The fixed-width header: \<open>_vg\<close>, then \<open>r\<close> or \<open>w\<close>, five decimal digits,
  \<open>Z\<close>, then \<open>Z\<close> or \<open>U\<close>, and \<open>_\<close>.
\<close>

definition z_header_grammar :: "string \<Rightarrow> bool" where
  "z_header_grammar s =
     (12 \<le> length s \<and> s ! 0 = CHR ''_'' \<and> s ! 1 = CHR ''v'' \<and> s ! 2 = CHR ''g''
      \<and> (s ! 3 = CHR ''r'' \<or> s ! 3 = CHR ''w'')
      \<and> is_decimal_digit (s ! 4) \<and> is_decimal_digit (s ! 5) \<and> is_decimal_digit (s ! 6)
      \<and> is_decimal_digit (s ! 7) \<and> is_decimal_digit (s ! 8)
      \<and> s ! 9 = CHR ''Z'' \<and> (s ! 10 = CHR ''Z'' \<or> s ! 10 = CHR ''U'') \<and> s ! 11 = CHR ''_'')"

text \<open>Tag digits \<open>0000\<close> together with a priority digit other than \<open>0\<close>.\<close>

definition tag0_with_prio :: "string \<Rightarrow> bool" where
  "tag0_with_prio s =
     (s ! 4 = CHR ''0'' \<and> s ! 5 = CHR ''0'' \<and> s ! 6 = CHR ''0'' \<and> s ! 7 = CHR ''0''
      \<and> s ! 8 \<noteq> CHR ''0'')"

text \<open>The bytes \<open>VG_Z_\<close>, unescaped, right after the header.\<close>

definition raw_VG_Z_prefix :: "string \<Rightarrow> bool" where
  "raw_VG_Z_prefix s =
     (17 \<le> length s \<and> s ! 12 = CHR ''V'' \<and> s ! 13 = CHR ''G'' \<and> s ! 14 = CHR ''_''
      \<and> s ! 15 = CHR ''Z'' \<and> s ! 16 = CHR ''_'')"

text \<open>The escape alphabet: selector letter and the character it stands for.\<close>

definition z_table :: "(char \<times> char) list" where
  "z_table =
     [(CHR ''a'', CHR ''*''), (CHR ''c'', CHR '':''), (CHR ''d'', CHR ''.''),
      (CHR ''h'', CHR ''-''), (CHR ''p'', CHR ''+''), (CHR ''s'', CHR '' ''),
      (CHR ''u'', CHR ''_''), (CHR ''A'', CHR ''@''), (CHR ''D'', CHR ''$''),
      (CHR ''L'', CHR ''(''), (CHR ''P'', CHR ''%''), (CHR ''R'', CHR '')''),
      (CHR ''S'', CHR ''/''), (CHR ''Z'', CHR ''Z'')]"

text \<open>
  Decoding a field: every pair of \<open>Z\<close> and a selector is replaced by its table
  character, every other byte is copied; a selector outside the table (or a \<open>Z\<close>
  with nothing behind it) is a failure.
\<close>

fun z_decode :: "string \<Rightarrow> string option" where
  "z_decode [] = Some []"
| "z_decode (c # cs) =
     (if c \<noteq> CHR ''Z'' then map_option ((#) c) (z_decode cs)
      else (case cs of
              [] \<Rightarrow> None
            | d # ds \<Rightarrow>
                (case map_of z_table d of
                   None \<Rightarrow> None
                 | Some e \<Rightarrow> map_option ((#) e) (z_decode ds))))"

text \<open>
  Decoding a field as far as it goes: the characters of the field up to the first
  \<open>Z\<close> that no selector of the table follows.
\<close>

fun z_decode_partial :: "string \<Rightarrow> string" where
  "z_decode_partial [] = []"
| "z_decode_partial (c # cs) =
     (if c \<noteq> CHR ''Z'' then c # z_decode_partial cs
      else (case cs of
              [] \<Rightarrow> []
            | d # ds \<Rightarrow>
                (case map_of z_table d of
                   None \<Rightarrow> []
                 | Some e \<Rightarrow> e # z_decode_partial ds)))"

text \<open>
  The two fields behind the header: the soname field runs up to the first \<open>_\<close>,
  the function name field is everything behind that delimiter.
\<close>

definition soname_field :: "string \<Rightarrow> string" where
  "soname_field s = takeWhile (\<lambda>c. c \<noteq> CHR ''_'') (drop 12 s)"

definition fnname_field :: "string \<Rightarrow> string" where
  "fnname_field s = drop 1 (dropWhile (\<lambda>c. c \<noteq> CHR ''_'') (drop 12 s))"

text \<open>
  The soname and function name the specification assigns to a symbol with a good
  header: the delimiter must be there, the soname field is decoded, and the function
  name field is decoded when the eleventh byte is \<open>Z\<close> and taken as it is otherwise.
\<close>

definition z_fields :: "string \<Rightarrow> (string \<times> string) option" where
  "z_fields s =
     (if CHR ''_'' \<notin> set (drop 12 s) then None
      else case z_decode (soname_field s) of
             None \<Rightarrow> None
           | Some sn \<Rightarrow>
               if s ! 10 = CHR ''Z'' then map_option (Pair sn) (z_decode (fnname_field s))
               else Some (sn, fnname_field s))"

text \<open>A caller that passes all four optional OUT pointers.\<close>

definition all_outputs :: z_request where
  "all_outputs =
     \<lparr>want_so = True, want_isWrap = True, want_eclassTag = True, want_eclassPrio = True\<rparr>"

subsection \<open>The entry point\<close>

text \<open>The two-byte marker \<open>_Z\<close> at the start of a (non-NULL) string.\<close>

definition begins_with_marker :: "string option \<Rightarrow> bool" where
  "begins_with_marker orig = (case orig of None \<Rightarrow> False | Some s \<Rightarrow> take 2 s = ''_Z'')"

subsection \<open>Mangled Rust names\<close>

text \<open>
  The \<open>$\<close>-tokens of the specification's escape table (it is the list of first
  components of \<open>rust_escapes\<close>, and the list \<open>looks_like_rust\<close> spells out).
\<close>

definition rust_tokens :: "string list" where
  "rust_tokens =
     [''$C$'', ''$SP$'', ''$BP$'', ''$RF$'', ''$LT$'', ''$GT$'', ''$LP$'', ''$RP$'',
      ''$u20$'', ''$u22$'', ''$u27$'', ''$u2b$'', ''$u3b$'', ''$u5b$'', ''$u5d$'', ''$u7b$'',
      ''$u7d$'', ''$u7e$'']"

text \<open>The sixteen lowercase hexadecimal digits.\<close>

definition lower_hex_digits :: string where
  "lower_hex_digits = ''0123456789abcdef''"

definition is_lower_hex :: "char \<Rightarrow> bool" where
  "is_lower_hex c = (c \<in> set lower_hex_digits)"

text \<open>
  The characters a mangled Rust name may contain outside a \<open>$\<close>-token:
  \<open>a\<close>--\<open>z\<close>, \<open>A\<close>--\<open>Z\<close>, \<open>0\<close>--\<open>9\<close>, \<open>_\<close>, \<open>:\<close> and \<open>.\<close>
\<close>

definition plain_rust_chars :: string where
  "plain_rust_chars = ''abcdefghijklmnopqrstuvwxyzABCDEFGHIJKLMNOPQRSTUVWXYZ0123456789_:.''"

definition plain_rust_char :: "char \<Rightarrow> bool" where
  "plain_rust_char c = (c \<in> set plain_rust_chars)"

text \<open>
  A name in front of the hash: every character is a plain one or part of a recognised
  \<open>$\<close>-token.
\<close>

inductive rust_body :: "string \<Rightarrow> bool" where
  rb_Nil: "rust_body []"
| rb_char: "plain_rust_char c \<Longrightarrow> rust_body cs \<Longrightarrow> rust_body (c # cs)"
| rb_token: "tok \<in> set rust_tokens \<Longrightarrow> rust_body cs \<Longrightarrow> rust_body (tok @ cs)"

text \<open>
  What the specification asks of a mangled Rust symbol: it ends with \<open>::h\<close> and
  sixteen lowercase hex digits, something precedes that suffix, the sixteen digits use
  between 5 and 15 distinct values, and the part in front consists of plain characters
  and recognised tokens without three dots in a row.
\<close>

definition rust_mangled_spec :: "string \<Rightarrow> bool" where
  "rust_mangled_spec s =
     (\<exists>body hash. s = body @ ''::h'' @ hash \<and> length hash = 16 \<and> list_all is_lower_hex hash
        \<and> body \<noteq> [] \<and> 5 \<le> card (set hash) \<and> card (set hash) \<le> 15
        \<and> rust_body body \<and> \<not> sublist ''...'' body)"


section \<open>Notions of the proofs\<close>

text \<open>No terminator and no placeholder among the bytes \<open>lo \<le> k < hi\<close> of a block.\<close>

definition clean :: "string \<Rightarrow> nat \<Rightarrow> nat \<Rightarrow> bool" where
  "clean b lo hi = (\<forall>k. lo \<le> k \<and> k < hi \<longrightarrow> b ! k \<noteq> NUL \<and> b ! k \<noteq> CHR ''?'')"

text \<open>
  For the proofs: the index \<open>is_prefixed_hash\<close> marks for a hex digit, and the
  marking itself.
\<close>

definition hexval :: "char \<Rightarrow> nat" where
  "hexval c = (if in_range (CHR ''0'') (CHR ''9'') c then code c - code (CHR ''0'')
               else code c - code (CHR ''a'') + 10)"

definition mark :: "bool list \<Rightarrow> char \<Rightarrow> bool list" where
  "mark seen c = seen[hexval c := True]"

text \<open>
  For the proofs: a token ends at the first \<open>$\<close> behind its first byte, so a string
  begins with at most one token.
\<close>

definition token_end :: "string \<Rightarrow> string" where
  "token_end str = take (2 + length (takeWhile (\<lambda>c. c \<noteq> CHR ''$'') (tl str))) str"


section \<open>Lemmas about the Z-decoder\<close>

lemma char_eq_code: "(c = d) = (code c = code d)"
  by (simp add: code_def)

lemma isdigit_iff: "VG_isdigit c = is_decimal_digit c"
  unfolding is_decimal_digit_def decimal_digits_def VG_isdigit_def in_range_def
  apply (simp add: char_eq_code)
  apply (simp add: code_def)
  apply presburger
  done

lemma digit_cases:
  "is_decimal_digit c \<Longrightarrow> P (CHR ''0'') \<Longrightarrow> P (CHR ''1'') \<Longrightarrow> P (CHR ''2'') \<Longrightarrow> P (CHR ''3'')
   \<Longrightarrow> P (CHR ''4'') \<Longrightarrow> P (CHR ''5'') \<Longrightarrow> P (CHR ''6'') \<Longrightarrow> P (CHR ''7'') \<Longrightarrow> P (CHR ''8'')
   \<Longrightarrow> P (CHR ''9'') \<Longrightarrow> P c"
  unfolding is_decimal_digit_def decimal_digits_def by (simp, elim disjE) simp_all

lemma digit_val_eq: "is_decimal_digit c \<Longrightarrow> digit_val c = digit_of c"
  by (erule digit_cases) (simp_all add: digit_val_def digit_of_def code_def decimal_digits_def)

lemma digit_of_range: "is_decimal_digit c \<Longrightarrow> 0 \<le> digit_of c \<and> digit_of c \<le> 9"
  by (erule digit_cases) (simp_all add: digit_of_def decimal_digits_def)

lemma ch_not_NUL: "ch s i \<noteq> NUL \<Longrightarrow> i < length s"
  by (simp add: ch_def split: if_splits)

lemma ch_nth: "i < length s \<Longrightarrow> ch s i = s ! i"
  by (simp add: ch_def)

lemma not_digit_NUL: "\<not> is_decimal_digit NUL"
  by (simp add: is_decimal_digit_def decimal_digits_def NUL_def)

lemma header_valid_iff: "header_valid s = (z_header_grammar s \<and> \<not> tag0_with_prio s)"
proof (cases "12 \<le> length s")
  case True
  then have "ch s 0 = s ! 0" "ch s 1 = s ! 1" "ch s 2 = s ! 2" "ch s 3 = s ! 3" "ch s 4 = s ! 4"
    "ch s 5 = s ! 5" "ch s 6 = s ! 6" "ch s 7 = s ! 7" "ch s 8 = s ! 8" "ch s 9 = s ! 9"
    "ch s 10 = s ! 10" "ch s 11 = s ! 11"
    by (auto simp add: ch_def)
  note ch = this
  have ite: "\<And>V T. (if V \<and> T then False else V) = (V \<and> \<not> T)" by auto
  have conj: "\<And>V T. (V \<and> T) = (V \<and> True \<and> T)" by auto
  show ?thesis
    unfolding header_valid_def z_header_grammar_def tag0_with_prio_def isdigit_iff Let_def ch
    by (simp only: ite True simp_thms)
next
  case False
  have "ch s 11 = CHR ''_'' \<Longrightarrow> 11 < length s"
    by (rule ch_not_NUL) (simp add: NUL_def)
  with False have "ch s 11 \<noteq> CHR ''_''" by auto
  with False show ?thesis
    by (simp add: header_valid_def z_header_grammar_def Let_def)
qed

lemma z_escape_table: "z_escape d = map_of z_table d"
  by (simp add: z_escape_def z_table_def)

lemma z_table_underscore: "map_of z_table (CHR ''_'') = None"
  by (simp add: z_table_def)

lemma z_table_NUL: "map_of z_table NUL = None"
  by (simp add: z_table_def NUL_def)

lemma soname_loop_ok:
  "CHR ''_'' \<in> set cs \<Longrightarrow> z_decode (takeWhile (\<lambda>c. c \<noteq> CHR ''_'') cs) = Some d \<Longrightarrow>
   soname_loop g cs acc = (False, (if g then acc @ d else acc), dropWhile (\<lambda>c. c \<noteq> CHR ''_'') cs)"
proof (induction g cs acc arbitrary: d rule: soname_loop.induct)
  case (1 g acc)
  then show ?case by simp
next
  case (2 g c cs acc)
  consider (delim) "c = CHR ''_''" | (lit) "c \<noteq> CHR ''_''" "c \<noteq> CHR ''Z''" | (esc) "c = CHR ''Z''"
    by auto
  then show ?case
  proof cases
    case delim
    with "2.prems" show ?thesis by simp
  next
    case lit
    with "2.prems" obtain d' where d': "z_decode (takeWhile (\<lambda>c. c \<noteq> CHR ''_'') cs) = Some d'" "d = c # d'"
      by auto
    from lit "2.prems" have "CHR ''_'' \<in> set cs" by auto
    from "2.IH"(1)[OF lit this d'(1)] lit d'(2) show ?thesis
      by (simp add: EMITSO_def)
  next
    case esc
    with "2.prems" obtain e es where cs: "cs = e # es"
      by (cases cs) auto
    from esc cs "2.prems" have ne: "e \<noteq> CHR ''_''"
      by auto
    from esc cs ne "2.prems"(2)
    have "(case map_of z_table e of None \<Rightarrow> None
           | Some x \<Rightarrow> map_option ((#) x) (z_decode (takeWhile (\<lambda>c. c \<noteq> CHR ''_'') es))) = Some d"
      by simp
    then obtain x d' where x: "map_of z_table e = Some x"
      "z_decode (takeWhile (\<lambda>c. c \<noteq> CHR ''_'') es) = Some d'" "d = x # d'"
      by (cases "map_of z_table e") auto
    from esc cs ne "2.prems" have mem: "CHR ''_'' \<in> set (drop 1 cs)" by auto
    have c1: "c \<noteq> CHR ''_''" and c2: "\<not> c \<noteq> CHR ''Z''" using esc by simp_all
    have z: "z_escape (ch cs 0) = Some x" using x(1) cs by (simp add: ch_def z_escape_table)
    have d1: "z_decode (takeWhile (\<lambda>c. c \<noteq> CHR ''_'') (drop 1 cs)) = Some d'"
      using x(2) cs by simp
    note ih = "2.IH"(2)[OF c1 c2 z mem d1]
    show ?thesis
      using esc cs ne x(3) z ih by (simp add: EMITSO_def)
  qed
qed

lemma soname_loop_bad:
  "CHR ''_'' \<notin> set cs \<or> z_decode (takeWhile (\<lambda>c. c \<noteq> CHR ''_'') cs) = None \<Longrightarrow>
   fst (soname_loop g cs acc)"
proof (induction g cs acc rule: soname_loop.induct)
  case (1 g acc)
  then show ?case by simp
next
  case (2 g c cs acc)
  show ?case
  proof (cases cs)
    case Nil
    with 2 show ?thesis
      by (auto simp: EMITSO_def z_escape_table z_table_NUL ch_def split: if_splits)
  next
    case (Cons e es)
    with 2 show ?thesis
      by (auto simp: EMITSO_def ch_def z_escape_table z_table_underscore
               split: if_splits option.splits)
  qed
qed

lemma fnname_copy_loop_eq: "fnname_copy_loop cs acc = acc @ cs"
  by (induction cs arbitrary: acc) (simp_all add: EMITFN_def)

lemma fnname_loop_ok: "z_decode cs = Some d \<Longrightarrow> fnname_loop cs acc = (False, acc @ d)"
proof (induction cs acc arbitrary: d rule: fnname_loop.induct)
  case (1 acc)
  then show ?case by simp
next
  case (2 c cs acc)
  show ?case
  proof (cases cs)
    case Nil
    with 2 show ?thesis by (auto simp: EMITFN_def split: if_splits)
  next
    case (Cons e es)
    with 2 show ?thesis
      by (auto simp: EMITFN_def z_escape_table ch_def split: if_splits option.splits)
  qed
qed

lemma fnname_loop_bad: "z_decode cs = None \<Longrightarrow> fst (fnname_loop cs acc)"
proof (induction cs acc rule: fnname_loop.induct)
  case (1 acc)
  then show ?case by simp
next
  case (2 c cs acc)
  show ?case
  proof (cases cs)
    case Nil
    with 2 show ?thesis
      by (auto simp: EMITFN_def z_escape_table z_table_NUL ch_def split: if_splits)
  next
    case (Cons e es)
    with 2 show ?thesis
      by (auto simp: EMITFN_def z_escape_table ch_def split: if_splits option.splits)
  qed
qed

lemma is_VG_Z_prefixed_iff: "is_VG_Z_prefixed s = raw_VG_Z_prefix s"
proof (cases "17 \<le> length s")
  case True
  then have "ch s 12 = s ! 12" "ch s 13 = s ! 13" "ch s 14 = s ! 14" "ch s 15 = s ! 15"
    "ch s 16 = s ! 16"
    by (auto simp add: ch_def)
  with True show ?thesis
    by (simp add: is_VG_Z_prefixed_def raw_VG_Z_prefix_def)
next
  case False
  have "ch s 16 = CHR ''_'' \<Longrightarrow> 16 < length s"
    by (rule ch_not_NUL) (simp add: NUL_def)
  with False have "ch s 16 \<noteq> CHR ''_''" by auto
  with False show ?thesis
    by (simp add: is_VG_Z_prefixed_def raw_VG_Z_prefix_def)
qed

lemma tag_range:
  "is_decimal_digit a \<Longrightarrow> is_decimal_digit b \<Longrightarrow> is_decimal_digit c \<Longrightarrow> is_decimal_digit d \<Longrightarrow>
   0 \<le> 1000 * digit_val a + 100 * digit_val b + 10 * digit_val c + 1 * digit_val d
   \<and> 1000 * digit_val a + 100 * digit_val b + 10 * digit_val c + 1 * digit_val d \<le> 9999"
  using digit_of_range[of a] digit_of_range[of b] digit_of_range[of c] digit_of_range[of d]
  by (simp add: digit_val_eq)

lemma prio_range: "is_decimal_digit a \<Longrightarrow> 0 \<le> digit_val a \<and> digit_val a \<le> 9"
  using digit_of_range[of a] by (simp add: digit_val_eq)

text \<open>After a valid header without the reserved prefix, the function is the two scans.\<close>

lemma demangle_after_header:
  assumes "z_header_grammar s" "\<not> tag0_with_prio s" "\<not> raw_VG_Z_prefix s"
  shows "VG_maybe_Z_demangle s rq =
         z_scan s rq
           \<lparr>ret = False, so = (if want_so rq then Some [] else None), fn = [],
            isWrap = (if want_isWrap rq then Some (s ! 3 = CHR ''w'') else None),
            eclassTag = (if want_eclassTag rq then Some (read_decimal [s ! 4, s ! 5, s ! 6, s ! 7]) else None),
            eclassPrio = (if want_eclassPrio rq then Some (read_decimal [s ! 8]) else None)\<rparr>"
proof -
  from assms(1) have len: "12 \<le> length s" and
    d: "is_decimal_digit (s ! 4)" "is_decimal_digit (s ! 5)" "is_decimal_digit (s ! 6)"
       "is_decimal_digit (s ! 7)" "is_decimal_digit (s ! 8)"
    by (simp_all add: z_header_grammar_def)
  from len have ch: "ch s 3 = s ! 3" "ch s 4 = s ! 4" "ch s 5 = s ! 5" "ch s 6 = s ! 6"
    "ch s 7 = s ! 7" "ch s 8 = s ! 8"
    by (auto simp add: ch_def)
  have hv: "header_valid s" using assms by (simp add: header_valid_iff)
  have nz: "\<not> is_VG_Z_prefixed s" using assms by (simp add: is_VG_Z_prefixed_iff)
  have tag: "1000 * digit_val (s ! 4) + 100 * digit_val (s ! 5) + 10 * digit_val (s ! 6)
             + 1 * digit_val (s ! 7) = read_decimal [s ! 4, s ! 5, s ! 6, s ! 7]"
    using d by (simp add: read_decimal_def digit_val_eq)
  have prio: "digit_val (s ! 8) = read_decimal [s ! 8]"
    using d by (simp add: read_decimal_def digit_val_eq)
  have tr: "0 \<le> read_decimal [s ! 4, s ! 5, s ! 6, s ! 7] \<and> read_decimal [s ! 4, s ! 5, s ! 6, s ! 7] \<le> 9999"
    using tag_range[OF d(1-4)] unfolding tag by simp
  have pr: "0 \<le> read_decimal [s ! 8] \<and> read_decimal [s ! 8] \<le> 9"
    using prio_range[OF d(5)] unfolding prio by simp
  show ?thesis
    unfolding VG_maybe_Z_demangle_def Let_def ch tag prio
    using hv nz tr pr by simp
qed

lemma ch_dropWhile_delim:
  "CHR ''_'' \<in> set cs \<Longrightarrow> ch (dropWhile (\<lambda>c. c \<noteq> CHR ''_'') cs) 0 = CHR ''_''"
  by (induction cs) (auto simp add: ch_def)

lemma z_scan_fields:
  assumes "12 \<le> length s" "z_fields s = Some (sn, fnn)"
  shows "z_scan s rq o1 =
         Inr (o1\<lparr>ret := True, so := (if want_so rq then Some sn else None), fn := fnn\<rparr>)"
proof -
  let ?cs = "drop 12 s"
  from assms(1) have c10: "ch s 10 = s ! 10" by (simp add: ch_def)
  from assms(2) have mem: "CHR ''_'' \<in> set ?cs"
    by (simp add: z_fields_def split: if_splits)
  with assms(2) have sn: "z_decode (takeWhile (\<lambda>c. c \<noteq> CHR ''_'') ?cs) = Some sn"
    by (simp add: z_fields_def soname_field_def split: option.splits if_splits)
  have loop: "soname_loop (want_so rq) ?cs [] =
              (False, (if want_so rq then sn else []), dropWhile (\<lambda>c. c \<noteq> CHR ''_'') ?cs)"
    using soname_loop_ok[OF mem sn, of "want_so rq" "[]"] by simp
  show ?thesis
  proof (cases "s ! 10 = CHR ''Z''")
    case True
    with assms(2) mem sn have "z_decode (fnname_field s) = Some fnn"
      by (simp add: z_fields_def soname_field_def)
    then have "fnname_loop (drop 1 (dropWhile (\<lambda>c. c \<noteq> CHR ''_'') ?cs)) [] = (False, fnn)"
      using fnname_loop_ok[of "fnname_field s" fnn "[]"] by (simp add: fnname_field_def)
    with True loop show ?thesis
      by (simp add: z_scan_def c10 ch_dropWhile_delim[OF mem])
  next
    case False
    with assms(2) mem sn have "fnn = fnname_field s"
      by (simp add: z_fields_def soname_field_def)
    with False loop show ?thesis
      by (simp add: z_scan_def c10 ch_dropWhile_delim[OF mem] fnname_copy_loop_eq fnname_field_def)
  qed
qed

lemma z_scan_no_fields:
  assumes "12 \<le> length s" "z_fields s = None"
  shows "\<exists>r. z_scan s rq o1 = Inr r \<and> \<not> ret r"
proof -
  let ?cs = "drop 12 s"
  from assms(1) have c10: "ch s 10 = s ! 10" by (simp add: ch_def)
  show ?thesis
  proof (cases "CHR ''_'' \<in> set ?cs \<and> z_decode (soname_field s) \<noteq> None")
    case False
    then have "fst (soname_loop (want_so rq) ?cs [])"
      by (intro soname_loop_bad) (auto simp: soname_field_def)
    then show ?thesis
      by (cases "soname_loop (want_so rq) ?cs []") (simp add: z_scan_def)
  next
    case True
    then obtain sn where mem: "CHR ''_'' \<in> set ?cs"
      and sn: "z_decode (takeWhile (\<lambda>c. c \<noteq> CHR ''_'') ?cs) = Some sn"
      by (auto simp: soname_field_def)
    have loop: "soname_loop (want_so rq) ?cs [] =
              (False, (if want_so rq then sn else []), dropWhile (\<lambda>c. c \<noteq> CHR ''_'') ?cs)"
      using soname_loop_ok[OF mem sn, of "want_so rq" "[]"] by simp
    from assms(2) mem sn have z: "s ! 10 = CHR ''Z''" and "z_decode (fnname_field s) = None"
      by (simp_all add: z_fields_def soname_field_def split: if_splits)
    then have "fst (fnname_loop (drop 1 (dropWhile (\<lambda>c. c \<noteq> CHR ''_'') ?cs)) [])"
      using fnname_loop_bad[of "fnname_field s" "[]"] by (simp add: fnname_field_def)
    with z loop show ?thesis
      by (cases "fnname_loop (drop 1 (dropWhile (\<lambda>c. c \<noteq> CHR ''_'') ?cs)) []")
         (simp add: z_scan_def c10 ch_dropWhile_delim[OF mem])
  qed
qed

lemma z_scan_keeps_scalars:
  "z_scan s rq o1 = Inr r \<Longrightarrow>
   isWrap r = isWrap o1 \<and> eclassTag r = eclassTag o1 \<and> eclassPrio r = eclassPrio o1"
  by (auto simp: z_scan_def split: prod.splits bool.splits if_splits)

lemma raw_prefix_aborts:
  assumes "z_header_grammar symb" and "\<not> tag0_with_prio symb" and "raw_VG_Z_prefix symb"
  shows "VG_maybe_Z_demangle symb rq = Inl Assert_VG_Z_prefix"
proof -
  from assms(1) have d: "is_decimal_digit (symb ! 4)" "is_decimal_digit (symb ! 5)"
    "is_decimal_digit (symb ! 6)" "is_decimal_digit (symb ! 7)" "is_decimal_digit (symb ! 8)"
    and len: "12 \<le> length symb"
    by (simp_all add: z_header_grammar_def)
  from len have ch: "ch symb 4 = symb ! 4" "ch symb 5 = symb ! 5" "ch symb 6 = symb ! 6"
    "ch symb 7 = symb ! 7" "ch symb 8 = symb ! 8"
    by (auto simp add: ch_def)
  have hv: "header_valid symb" using assms by (simp add: header_valid_iff)
  have z: "is_VG_Z_prefixed symb" using assms by (simp add: is_VG_Z_prefixed_iff)
  show ?thesis
    unfolding VG_maybe_Z_demangle_def Let_def ch
    using hv z tag_range[OF d(1-4)] prio_range[OF d(5)] by simp
qed

lemma z_decode_partial_full: "z_decode cs = Some d \<Longrightarrow> z_decode_partial cs = d"
  by (induction cs arbitrary: d rule: z_decode.induct)
     (auto split: if_splits list.splits option.splits)

lemma soname_loop_sobuf:
  "fst (snd (soname_loop g cs acc)) =
     (if g then acc @ z_decode_partial (takeWhile (\<lambda>c. c \<noteq> CHR ''_'') cs) else acc)"
proof (induction g cs acc rule: soname_loop.induct)
  case (1 g acc)
  then show ?case by simp
next
  case (2 g c cs acc)
  consider (delim) "c = CHR ''_''" | (lit) "c \<noteq> CHR ''_''" "c \<noteq> CHR ''Z''" | (esc) "c = CHR ''Z''"
    by auto
  then show ?case
  proof cases
    case delim
    then show ?thesis by simp
  next
    case lit
    from "2.IH"(1)[OF lit] lit show ?thesis
      by (simp add: EMITSO_def)
  next
    case esc
    have c1: "c \<noteq> CHR ''_''" and c2: "\<not> c \<noteq> CHR ''Z''" using esc by simp_all
    show ?thesis
    proof (cases cs)
      case Nil
      with esc show ?thesis
        by (simp add: z_escape_table z_table_NUL ch_def)
    next
      case (Cons e es)
      show ?thesis
      proof (cases "map_of z_table e")
        case None
        with esc Cons show ?thesis
          by (simp add: z_escape_table ch_def)
      next
        case (Some x)
        then have ne: "e \<noteq> CHR ''_''" using z_table_underscore by auto
        have z: "z_escape (ch cs 0) = Some x" using Some Cons by (simp add: ch_def z_escape_table)
        note ih = "2.IH"(2)[OF c1 c2 z]
        show ?thesis
          using esc Cons ne Some z ih by (simp add: EMITSO_def)
      qed
    qed
  qed
qed

lemma fnname_loop_fnbuf: "snd (fnname_loop cs acc) = acc @ z_decode_partial cs"
proof (induction cs acc rule: fnname_loop.induct)
  case (1 acc)
  then show ?case by simp
next
  case (2 c cs acc)
  show ?case
  proof (cases "c = CHR ''Z''")
    case False
    from "2.IH"(1)[OF False] False show ?thesis by (simp add: EMITFN_def)
  next
    case esc: True
    then have c2: "\<not> c \<noteq> CHR ''Z''" by simp
    show ?thesis
    proof (cases cs)
      case Nil
      with esc show ?thesis
        by (simp add: z_escape_table z_table_NUL ch_def)
    next
      case (Cons e es)
      show ?thesis
      proof (cases "map_of z_table e")
        case None
        with esc Cons show ?thesis
          by (simp add: z_escape_table ch_def)
      next
        case (Some x)
        have z: "z_escape (ch cs 0) = Some x" using Some Cons by (simp add: ch_def z_escape_table)
        note ih = "2.IH"(2)[OF c2 z]
        show ?thesis
          using esc Cons Some z ih by (simp add: EMITFN_def)
      qed
    qed
  qed
qed

text \<open>What the two buffers hold when the scans end in failure.\<close>

lemma z_scan_failure_strings:
  assumes "12 \<le> length s" "z_scan s rq o1 = Inr r" "\<not> ret r"
  shows "so r = (if want_so rq then Some (z_decode_partial (soname_field s)) else None)
         \<and> fn r = (if CHR ''_'' \<in> set (drop 12 s) \<and> z_decode (soname_field s) \<noteq> None
                   then z_decode_partial (fnname_field s) else [])"
proof -
  let ?cs = "drop 12 s"
  from assms(1) have c10: "ch s 10 = s ! 10" by (simp add: ch_def)
  obtain e sobuf rest where sl: "soname_loop (want_so rq) ?cs [] = (e, sobuf, rest)"
    by (cases "soname_loop (want_so rq) ?cs []") auto
  from soname_loop_sobuf[of "want_so rq" ?cs "[]"] sl
  have sb: "sobuf = (if want_so rq then z_decode_partial (soname_field s) else [])"
    by (simp add: soname_field_def)
  show ?thesis
  proof (cases "CHR ''_'' \<in> set ?cs \<and> z_decode (soname_field s) \<noteq> None")
    case False
    then have "fst (soname_loop (want_so rq) ?cs [])"
      by (intro soname_loop_bad) (auto simp: soname_field_def)
    with sl have "e" by simp
    with sl assms(2) sb False show ?thesis by (auto simp add: z_scan_def)
  next
    case True
    then obtain sn where mem: "CHR ''_'' \<in> set ?cs"
      and sn: "z_decode (takeWhile (\<lambda>c. c \<noteq> CHR ''_'') ?cs) = Some sn"
      by (auto simp: soname_field_def)
    from soname_loop_ok[OF mem sn, of "want_so rq" "[]"] sl
    have ne: "\<not> e" and rest: "rest = dropWhile (\<lambda>c. c \<noteq> CHR ''_'') ?cs" by simp_all
    have d: "ch rest 0 = CHR ''_''" unfolding rest by (rule ch_dropWhile_delim[OF mem])
    have f: "drop 1 rest = fnname_field s" unfolding rest by (simp add: fnname_field_def)
    show ?thesis
    proof (cases "ch s 10 = CHR ''Z''")
      case False
      with sl ne d assms(2,3) show ?thesis by (auto simp add: z_scan_def)
    next
      case Z: True
      obtain e2 fnbuf where fl: "fnname_loop (fnname_field s) [] = (e2, fnbuf)"
        by (cases "fnname_loop (fnname_field s) []") auto
      from fnname_loop_fnbuf[of "fnname_field s" "[]"] fl
      have "fnbuf = z_decode_partial (fnname_field s)" by simp
      with Z sl ne d f fl assms(2) sb True show ?thesis by (auto simp add: z_scan_def)
    qed
  qed
qed


section \<open>Lemmas about the entry point\<close>

lemma marker_iff: "(ch s 0 = CHR ''_'' \<and> ch s (Suc 0) = CHR ''Z'') = (take 2 s = ''_Z'')"
proof (cases s)
  case Nil
  then show ?thesis by (simp add: ch_def NUL_def)
next
  case (Cons a t)
  then show ?thesis by (cases t) (auto simp add: ch_def NUL_def)
qed

lemma VG_demangle_skips_stage1:
  assumes "undo_Z do_z orig0 = Inr orig"
    and "\<not> do_cxx \<or> \<not> clo \<or> \<not> begins_with_marker orig"
  shows "VG_demangle clo cxx dem do_cxx do_z orig0 =
         Inr \<lparr>result = To_orig orig, demangled_after = dem, events = []\<rparr>"
  using assms
  by (cases orig) (auto simp add: VG_demangle_def begins_with_marker_def marker_iff)

lemma VG_demangle_enters_stage1:
  assumes "undo_Z do_z orig0 = Inr (Some s)"
    and "do_cxx" "clo" "begins_with_marker (Some s)"
  shows "VG_demangle clo cxx dem do_cxx do_z orig0 = stage1 cxx dem s"
  using assms
  by (simp add: VG_demangle_def begins_with_marker_def marker_iff)

lemma stage1_no_result:
  "cxx s = None \<Longrightarrow>
   stage1 cxx dem s =
     Inr \<lparr>result = To_orig (Some s), demangled_after = None,
          events = (case dem of Some d \<Rightarrow> [Arena_free d] | None \<Rightarrow> []) @ [Cplus_demangle s]\<rparr>"
  by (simp add: stage1_def)



section \<open>Lemmas about the Rust decoder\<close>

lemma rust_token_cases:
  "tok \<in> set rust_tokens \<Longrightarrow> P ''$C$'' \<Longrightarrow> P ''$SP$'' \<Longrightarrow> P ''$BP$'' \<Longrightarrow> P ''$RF$''
   \<Longrightarrow> P ''$LT$'' \<Longrightarrow> P ''$GT$'' \<Longrightarrow> P ''$LP$'' \<Longrightarrow> P ''$RP$'' \<Longrightarrow> P ''$u20$''
   \<Longrightarrow> P ''$u22$'' \<Longrightarrow> P ''$u27$'' \<Longrightarrow> P ''$u2b$'' \<Longrightarrow> P ''$u3b$'' \<Longrightarrow> P ''$u5b$''
   \<Longrightarrow> P ''$u5d$'' \<Longrightarrow> P ''$u7b$'' \<Longrightarrow> P ''$u7d$'' \<Longrightarrow> P ''$u7e$'' \<Longrightarrow> P tok"
  unfolding rust_tokens_def by (simp, elim disjE) simp_all

lemma rust_escapes_tokens: "map fst rust_escapes = rust_tokens"
  by (simp add: rust_escapes_def rust_tokens_def)

lemma looks_like_rust_unfold:
  "0 < len \<Longrightarrow>
   looks_like_rust str len =
     (if ch str 0 = CHR ''$'' then
        (if dollar3 str then looks_like_rust (drop 3 str) (len - 3)
         else if dollar4 str then looks_like_rust (drop 4 str) (len - 4)
         else if dollar5 str then looks_like_rust (drop 5 str) (len - 5)
         else False)
      else if ch str 0 = CHR ''.'' then
        (if strncmp_eq str ''...'' 3 then False
         else looks_like_rust (drop 1 str) (len - 1))
      else if alnum (ch str 0) \<or> ch str 0 = CHR ''_'' \<or> ch str 0 = CHR '':''
        then looks_like_rust (drop 1 str) (len - 1)
      else False)"
  by (subst looks_like_rust.simps) simp

lemma looks_like_rust_0: "looks_like_rust str 0"
  by (subst looks_like_rust.simps) simp

lemma looks_like_rust_token:
  "tok \<in> set rust_tokens \<Longrightarrow> 0 < len \<Longrightarrow>
   looks_like_rust (tok @ rest) len = looks_like_rust rest (len - length tok)"
  apply (subst looks_like_rust_unfold, assumption)
  apply (erule rust_token_cases)
  apply (simp_all add: dollar3_def dollar4_def dollar5_def strncmp_eq_def ch_def eval_nat_numeral)
  done

lemma dollar_token:
  "(dollar3 str \<or> dollar4 str \<or> dollar5 str) = (\<exists>tok\<in>set rust_tokens. \<exists>rest. str = tok @ rest)"
proof -
  have t: "\<And>k tok. length tok = k \<Longrightarrow> (take k str = tok) = (\<exists>rest. str = tok @ rest)"
    by (metis append_eq_conv_conj append_take_drop_id)
  show ?thesis
    unfolding dollar3_def dollar4_def dollar5_def strncmp_eq_def rust_tokens_def
    by (simp add: t)
qed

lemma looks_like_rust_no_token:
  assumes "0 < len" "ch str 0 = CHR ''$''" "\<not> (\<exists>tok\<in>set rust_tokens. \<exists>rest. str = tok @ rest)"
  shows "\<not> looks_like_rust str len"
  using assms dollar_token[of str] by (simp add: looks_like_rust_unfold)

lemma unescape_chain_Some:
  "unescape_chain buf inp outp tbl = Some (b, ip, ou) \<Longrightarrow>
   \<exists>seq val. (seq, val) \<in> set tbl \<and> take (length seq) (drop inp buf) = seq
      \<and> b = buf[outp := val] \<and> ip = inp + length seq \<and> ou = outp + 1"
proof (induction tbl)
  case Nil
  then show ?case by simp
next
  case (Cons p tbl)
  obtain seq val where p: "p = (seq, val)" by (cases p)
  show ?case
  proof (cases "unescape buf inp outp seq val")
    case None
    with Cons.prems p have "unescape_chain buf inp outp tbl = Some (b, ip, ou)" by simp
    from Cons.IH[OF this] show ?thesis by auto
  next
    case (Some r)
    with Cons.prems p have "r = (b, ip, ou)" by simp
    with Some have "take (length seq) (drop inp buf) = seq \<and> b = buf[outp := val]
        \<and> ip = inp + length seq \<and> ou = outp + 1"
      by (auto simp: unescape_def strncmp_eq_def Let_def split: if_splits)
    with p show ?thesis by (intro exI[of _ seq] exI[of _ val]) simp
  qed
qed

lemma rust_escapes_all:
  "list_all (\<lambda>(seq, val). 3 \<le> length seq \<and> length seq \<le> 5 \<and> val \<noteq> NUL \<and> val \<noteq> CHR ''?'')
     rust_escapes"
  by (simp add: rust_escapes_def NUL_def)

lemma rust_escapes_mem:
  "(seq, val) \<in> set rust_escapes \<Longrightarrow>
   3 \<le> length seq \<and> length seq \<le> 5 \<and> val \<noteq> NUL \<and> val \<noteq> CHR ''?''"
  using rust_escapes_all by (auto simp: list_all_iff)

lemma alnum_not_special: "alnum c \<Longrightarrow> c \<noteq> NUL \<and> c \<noteq> CHR ''?''"
  by (auto simp: alnum_def in_range_def code_def NUL_def)

lemma rust_step_cases:
  assumes "rust_step buf inp outp = Some (b, ip, ou)"
  obtains (skip) "b = buf" "ip = inp + 1" "ou = outp"
    | (one) c n where "c \<noteq> NUL" "c \<noteq> CHR ''?''" "1 \<le> n" "n \<le> 5"
        "b = buf[outp := c]" "ip = inp + n" "ou = outp + 1"
    | (two) "b = buf[outp := CHR '':'', outp + 1 := CHR '':'']" "ip = inp + 2" "ou = outp + 2"
proof (cases "buf ! inp = CHR ''$''")
  case True
  with assms have "unescape_chain buf inp outp rust_escapes = Some (b, ip, ou)"
    by (simp add: rust_step_def)
  from unescape_chain_Some[OF this] obtain seq val where
    m: "(seq, val) \<in> set rust_escapes" and b: "b = buf[outp := val]"
    and ip: "ip = inp + length seq" and ou: "ou = outp + 1"
    by blast
  from rust_escapes_mem[OF m] b ip ou show ?thesis
    by (intro one[of val "length seq"]) simp_all
next
  case False
  note nd = this
  show ?thesis
  proof (cases "buf ! inp = CHR ''_''")
    case True
    show ?thesis
    proof (cases "(inp = 0 \<or> buf ! (inp - 1) = CHR '':'') \<and> buf ! (inp + 1) = CHR ''$''")
      case True
      with \<open>buf ! inp = CHR ''_''\<close> assms show ?thesis
        by (intro skip) (simp_all add: rust_step_def)
    next
      case False
      with \<open>buf ! inp = CHR ''_''\<close> assms
      have "b = buf[outp := CHR ''_'']" "ip = inp + 1" "ou = outp + 1"
        by (auto simp add: rust_step_def)
      then show ?thesis by (intro one[of "CHR ''_''" 1]) (simp_all add: NUL_def)
    qed
  next
    case False
    note nu = this
    show ?thesis
    proof (cases "buf ! inp = CHR ''.''")
      case True
      show ?thesis
      proof (cases "buf ! (inp + 1) = CHR ''.''")
        case True
        with \<open>buf ! inp = CHR ''.''\<close> assms show ?thesis
          by (intro two) (simp_all add: rust_step_def)
      next
        case False
        with \<open>buf ! inp = CHR ''.''\<close> assms
        have "b = buf[outp := CHR ''-'']" "ip = inp + 1" "ou = outp + 1"
          by (simp_all add: rust_step_def)
        then show ?thesis by (intro one[of "CHR ''-''" 1]) (simp_all add: NUL_def)
      qed
    next
      case False
      with nd nu assms have a: "alnum (buf ! inp) \<or> buf ! inp = CHR '':''"
        and r: "b = buf[outp := buf ! inp]" "ip = inp + 1" "ou = outp + 1"
        by (simp_all add: rust_step_def split: if_splits)
      from a have "buf ! inp \<noteq> NUL \<and> buf ! inp \<noteq> CHR ''?''"
        using alnum_not_special[of "buf ! inp"] by (auto simp: NUL_def)
      with r show ?thesis by (intro one[of "buf ! inp" 1]) simp_all
    qed
  qed
qed

lemma rust_step_Some:
  assumes "rust_step buf inp outp = Some (b, ip, ou)" "outp \<le> inp" "inp + 1 < length buf"
  shows "length b = length buf \<and> inp < ip \<and> ip \<le> inp + 5 \<and> outp \<le> ou \<and> ou \<le> ip
         \<and> drop ip b = drop ip buf \<and> take outp b = take outp buf \<and> clean b outp ou"
  using assms(1)
proof (cases rule: rust_step_cases)
  case skip
  then show ?thesis using assms(2) by (auto simp add: clean_def)
next
  case (one c n)
  have "clean b outp ou"
    unfolding clean_def
  proof (intro allI impI)
    fix k assume "outp \<le> k \<and> k < ou"
    with one have "k = outp" by simp
    with one assms(2,3) show "b ! k \<noteq> NUL \<and> b ! k \<noteq> CHR ''?''" by simp
  qed
  moreover from one assms(2) have "outp < ip" by simp
  then have "drop ip b = drop ip buf" unfolding one by (rule drop_update_cancel)
  moreover have "inp < ip" "ip \<le> inp + 5" "outp \<le> ou" "ou \<le> ip"
    using one assms(2) by linarith+
  moreover have "length b = length buf" "take outp b = take outp buf" unfolding one by simp_all
  ultimately show ?thesis by blast
next
  case two
  have "clean b outp ou"
    unfolding clean_def
  proof (intro allI impI)
    fix k assume "outp \<le> k \<and> k < ou"
    with two have "k = outp \<or> k = outp + 1" by auto
    with two assms(2,3) show "b ! k \<noteq> NUL \<and> b ! k \<noteq> CHR ''?''"
      by (auto simp add: NUL_def nth_list_update)
  qed
  moreover from two assms(2) have "outp < ip" "outp + 1 < ip" by simp_all
  then have "drop ip b = drop ip buf" unfolding two by (simp add: drop_update_cancel)
  moreover have "inp < ip" "ip \<le> inp + 5" "outp \<le> ou" "ou \<le> ip"
    using two assms(2) by linarith+
  moreover have "length b = length buf" "take outp b = take outp buf" unfolding two by simp_all
  ultimately show ?thesis by blast
qed

lemma clean_extend:
  assumes "take lo b = take lo buf" "clean buf 0 lo" "clean b lo hi"
  shows "clean b 0 hi"
  unfolding clean_def
proof (intro allI impI)
  fix k assume k: "0 \<le> k \<and> k < hi"
  show "b ! k \<noteq> NUL \<and> b ! k \<noteq> CHR ''?''"
  proof (cases "k < lo")
    case True
    then have "b ! k = take lo b ! k" by simp
    also have "\<dots> = buf ! k" using True assms(1) by simp
    finally show ?thesis using assms(2) True by (simp add: clean_def)
  next
    case False
    with k assms(3) show ?thesis by (simp add: clean_def)
  qed
qed

lemma rust_scan_bounds:
  assumes "rust_scan buf inp outp endp = (failed, b, ou)" "outp \<le> inp"
    "endp + 1 < int (length buf)" "clean buf 0 outp"
  shows "length b = length buf \<and> (failed \<longrightarrow> int ou < endp)
         \<and> int ou \<le> max (int inp) (endp + 4) \<and> clean b 0 ou"
  using assms
proof (induction buf inp outp endp arbitrary: failed b ou rule: rust_scan.induct)
  case (1 buf inp outp endp)
  show ?case
  proof (cases "int inp < endp")
    case False
    with "1.prems" show ?thesis
      by (simp add: rust_scan.simps[of buf inp outp endp])
  next
    case True
    show ?thesis
    proof (cases "rust_step buf inp outp")
      case None
      with True "1.prems" show ?thesis
        by (auto simp add: rust_scan.simps[of buf inp outp endp])
    next
      case (Some t)
      obtain b1 i1 o1 where t: "t = (b1, i1, o1)" by (cases t)
      from True Some t "1.prems"(1) have rec: "rust_scan b1 i1 o1 endp = (failed, b, ou)"
        by (simp add: rust_scan.simps[of buf inp outp endp])
      from True "1.prems"(3) have "inp + 1 < length buf" by simp
      from rust_step_Some[OF Some[unfolded t] "1.prems"(2) this]
      have st: "length b1 = length buf" "inp < i1" "i1 \<le> inp + 5" "outp \<le> o1" "o1 \<le> i1"
        "take outp b1 = take outp buf" "clean b1 outp o1"
        by simp_all
      have c1: "clean b1 0 o1" using st(6) "1.prems"(4) st(7) by (rule clean_extend)
      have l1: "endp + 1 < int (length b1)" using st(1) "1.prems"(3) by simp
      have "\<not> \<not> int inp < endp" using True by simp
      from "1.IH"[OF this Some t[symmetric] refl rec st(5) l1 c1]
      have "length b = length b1 \<and> (failed \<longrightarrow> int ou < endp)
         \<and> int ou \<le> max (int i1) (endp + 4) \<and> clean b 0 ou" .
      with st True show ?thesis by auto
    qed
  qed
qed

lemma rust_escape_cases:
  "(tok, v) \<in> set rust_escapes \<Longrightarrow> P ''$C$'' (CHR '','') \<Longrightarrow> P ''$SP$'' (CHR ''@'')
   \<Longrightarrow> P ''$BP$'' (CHR ''*'') \<Longrightarrow> P ''$RF$'' (CHR ''&'') \<Longrightarrow> P ''$LT$'' (CHR ''<'')
   \<Longrightarrow> P ''$GT$'' (CHR ''>'') \<Longrightarrow> P ''$LP$'' (CHR ''('') \<Longrightarrow> P ''$RP$'' (CHR '')'')
   \<Longrightarrow> P ''$u20$'' (CHR '' '') \<Longrightarrow> P ''$u22$'' (CHR 0x22) \<Longrightarrow> P ''$u27$'' (CHR 0x27)
   \<Longrightarrow> P ''$u2b$'' (CHR ''+'') \<Longrightarrow> P ''$u3b$'' (CHR '';'') \<Longrightarrow> P ''$u5b$'' (CHR ''['')
   \<Longrightarrow> P ''$u5d$'' (CHR '']'') \<Longrightarrow> P ''$u7b$'' (CHR ''{'') \<Longrightarrow> P ''$u7d$'' (CHR ''}'')
   \<Longrightarrow> P ''$u7e$'' (CHR ''~'') \<Longrightarrow> P tok v"
  unfolding rust_escapes_def by (simp, elim disjE) simp_all

lemma unescape_chain_token_aux:
  "(tok, v) \<in> set rust_escapes \<Longrightarrow>
   drop inp buf = tok @ rest \<longrightarrow>
   unescape_chain buf inp outp rust_escapes = Some (buf[outp := v], inp + length tok, outp + 1)"
  by (erule rust_escape_cases)
     (simp_all add: rust_escapes_def unescape_def strncmp_eq_def)

lemma unescape_chain_token:
  "(tok, v) \<in> set rust_escapes \<Longrightarrow> drop inp buf = tok @ rest \<Longrightarrow>
   unescape_chain buf inp outp rust_escapes = Some (buf[outp := v], inp + length tok, outp + 1)"
  using unescape_chain_token_aux by blast

lemma rust_step_looks:
  assumes ll: "looks_like_rust (drop inp orig) (L - inp)" and lt: "inp < L"
    and len: "L + 5 \<le> length orig" and dr: "drop inp buf = drop inp orig @ [NUL]"
  shows "\<exists>b ip ou. rust_step buf inp outp = Some (b, ip, ou)
           \<and> looks_like_rust (drop ip orig) (L - ip)"
proof -
  let ?str = "drop inp orig"
  have pos: "0 < L - inp" using lt by simp
  have l6: "6 \<le> length ?str" using lt len by simp
  have "length (drop inp buf) = length (drop inp orig @ [NUL])" unfolding dr ..
  then have lb: "length buf = length orig + 1"
    using lt len by simp
  have il: "inp < length orig" "inp + 1 < length orig" "0 < length orig - inp"
    "1 < length orig - inp" using lt len by simp_all
  have s0: "?str ! 0 = orig ! inp" and s1: "?str ! 1 = orig ! (inp + 1)"
    using il by simp_all
  have "buf ! inp = drop inp buf ! 0" using lb il by simp
  also have "\<dots> = orig ! inp" unfolding dr using il by (simp add: nth_append)
  finally have b0: "buf ! inp = ?str ! 0" using s0 by simp
  have "buf ! (inp + 1) = drop inp buf ! 1" using lb il by simp
  also have "\<dots> = orig ! (inp + 1)" unfolding dr using il by (simp add: nth_append)
  finally have b1: "buf ! (inp + 1) = ?str ! 1" using s1 by simp
  have c0: "ch ?str 0 = ?str ! 0" and c1: "ch (drop 1 ?str) 0 = ?str ! 1"
    using il by (simp_all add: ch_def)
  note un = looks_like_rust_unfold[OF pos, of ?str]
  show ?thesis
  proof (cases "?str ! 0 = CHR ''$''")
    case True
    with ll un c0 have "dollar3 ?str \<or> dollar4 ?str \<or> dollar5 ?str"
      by (auto split: if_splits)
    then obtain tok rest where tok: "tok \<in> set rust_tokens" and str: "?str = tok @ rest"
      unfolding dollar_token by blast
    from tok obtain v where v: "(tok, v) \<in> set rust_escapes"
      unfolding rust_escapes_tokens[symmetric] by auto
    have "drop inp buf = tok @ (rest @ [NUL])" unfolding dr str by simp
    from unescape_chain_token[OF v this, of outp] True b0
    have st: "rust_step buf inp outp = Some (buf[outp := v], inp + length tok, outp + 1)"
      by (simp add: rust_step_def)
    have "rest = drop (length tok) ?str" unfolding str by simp
    then have r: "rest = drop (inp + length tok) orig" by (simp add: add.commute)
    from ll have "looks_like_rust rest (L - inp - length tok)"
      unfolding str looks_like_rust_token[OF tok pos] .
    then have "looks_like_rust (drop (inp + length tok) orig) (L - (inp + length tok))"
      unfolding r by simp
    with st show ?thesis by blast
  next
    case False
    note nd = this
    have adv1: "looks_like_rust (drop 1 ?str) (L - inp - 1)
                \<Longrightarrow> looks_like_rust (drop (inp + 1) orig) (L - (inp + 1))"
      by (simp add: add.commute)
    show ?thesis
    proof (cases "?str ! 0 = CHR ''.''")
      case True
      with ll un c0 have nd3: "\<not> strncmp_eq ?str ''...'' 3"
        and l1: "looks_like_rust (drop 1 ?str) (L - inp - 1)"
        by (auto split: if_splits)
      show ?thesis
      proof (cases "?str ! 1 = CHR ''.''")
        case False
        with True b0 b1 have "rust_step buf inp outp = Some (buf[outp := CHR ''-''], inp + 1, outp + 1)"
          by (simp add: rust_step_def)
        with adv1[OF l1] show ?thesis by blast
      next
        case d2: True
        with True b0 b1
        have st: "rust_step buf inp outp =
                  Some (buf[outp := CHR '':'', outp + 1 := CHR '':''], inp + 2, outp + 2)"
          by (simp add: rust_step_def)
        have "looks_like_rust (drop (inp + 2) orig) (L - (inp + 2))"
        proof (cases "0 < L - inp - 1")
          case False
          then have "L - (inp + 2) = 0" by simp
          then show ?thesis by (simp add: looks_like_rust_0)
        next
          case p1: True
          from l1 looks_like_rust_unfold[OF p1, of "drop 1 ?str"] c1 d2
          have "looks_like_rust (drop 1 (drop 1 ?str)) (L - inp - 1 - 1)"
            by (auto split: if_splits)
          then show ?thesis by (simp add: add.commute)
        qed
        with st show ?thesis by blast
      qed
    next
      case False
      with nd ll un c0 have a: "alnum (?str ! 0) \<or> ?str ! 0 = CHR ''_'' \<or> ?str ! 0 = CHR '':''"
        and l1: "looks_like_rust (drop 1 ?str) (L - inp - 1)"
        by (auto split: if_splits)
      from nd False a b0 have "\<exists>b ou. rust_step buf inp outp = Some (b, inp + 1, ou)"
        by (auto simp add: rust_step_def)
      with adv1[OF l1] show ?thesis by blast
    qed
  qed
qed

lemma rust_scan_no_fail:
  assumes "looks_like_rust (drop inp orig) (L - inp)" "L + 5 \<le> length orig"
    "drop inp buf = drop inp orig @ [NUL]" "outp \<le> inp" "endp = int L"
  shows "\<not> fst (rust_scan buf inp outp endp)"
  using assms
proof (induction buf inp outp endp rule: rust_scan.induct)
  case (1 buf inp outp endp)
  show ?case
  proof (cases "int inp < endp")
    case False
    then show ?thesis by (simp add: rust_scan.simps[of buf inp outp endp])
  next
    case True
    with "1.prems"(5) have lt: "inp < L" by simp
    from rust_step_looks[OF "1.prems"(1) lt "1.prems"(2,3), of outp]
    obtain b ip ou where st: "rust_step buf inp outp = Some (b, ip, ou)"
      and ll: "looks_like_rust (drop ip orig) (L - ip)"
      by blast
    have "length (drop inp buf) = length (drop inp orig @ [NUL])" unfolding "1.prems"(3) ..
    then have lb: "length buf = length orig + 1" using lt "1.prems"(2) by simp
    then have "inp + 1 < length buf" using lt "1.prems"(2) by simp
    from rust_step_Some[OF st "1.prems"(4) this]
    have s: "inp < ip" "ip \<le> inp + 5" "ou \<le> ip" "drop ip b = drop ip buf"
      by simp_all
    have "drop ip buf = drop (ip - inp) (drop inp buf)" using s(1) by simp
    also have "\<dots> = drop (ip - inp) (drop inp orig) @ [NUL]"
      unfolding "1.prems"(3) using s(2) lt "1.prems"(2) by simp
    also have "\<dots> = drop ip orig @ [NUL]" using s(1) by simp
    finally have dr: "drop ip b = drop ip orig @ [NUL]" using s(4) by simp
    have nn: "\<not> \<not> int inp < endp" using True by simp
    have "\<not> fst (rust_scan b ip ou endp)"
      by (rule "1.IH"[OF nn st refl refl ll "1.prems"(2) dr s(3) "1.prems"(5)])
    with True st show ?thesis by (simp add: rust_scan.simps[of buf inp outp endp])
  qed
qed

lemma rust_demangle_body_bounds:
  assumes "symb \<noteq> []"
  shows "out_cursor (rust_demangle_body symb) \<le> length symb
       \<and> 0 < out_cursor (rust_demangle_body symb)
       \<and> length (buffer (rust_demangle_body symb)) = length symb + 1
       \<and> buffer (rust_demangle_body symb) ! (out_cursor (rust_demangle_body symb) - 1) = NUL
       \<and> (\<not> went_to_fail (rust_demangle_body symb) \<longrightarrow>
            clean (buffer (rust_demangle_body symb)) 0 (out_cursor (rust_demangle_body symb) - 1))"
proof -
  let ?endp = "int (length symb) - int (hash_prefix_len + hash_len)"
  obtain failed buf outp where sc: "rust_scan (symb @ [NUL]) 0 0 ?endp = (failed, buf, outp)"
    by (cases "rust_scan (symb @ [NUL]) 0 0 ?endp") auto
  have p: "?endp + 1 < int (length (symb @ [NUL]))" "clean (symb @ [NUL]) 0 0"
    by (simp_all add: hash_prefix_len_def hash_len_def clean_def)
  from rust_scan_bounds[OF sc _ p]
  have b: "length buf = length symb + 1" "failed \<longrightarrow> int outp < ?endp"
    "int outp \<le> max 0 (?endp + 4)" "clean buf 0 outp"
    by simp_all
  have r: "rust_demangle_body symb =
           \<lparr>went_to_fail = failed,
            buffer = (if failed then buf[outp := CHR ''?''] else buf)
                       [(if failed then outp + 1 else outp) := NUL],
            out_cursor = (if failed then outp + 1 else outp) + 1\<rparr>"
    using sc by (simp add: rust_demangle_body_def Let_def)
  from assms have n: "0 < length symb" by simp
  show ?thesis
  proof (cases failed)
    case True
    with b(2) have "outp + 2 \<le> length symb"
      unfolding hash_prefix_len_def hash_len_def by arith
    with True b(1) show ?thesis unfolding r by simp
  next
    case False
    from b(3) n have o: "outp + 1 \<le> length symb"
      unfolding hash_prefix_len_def hash_len_def by arith
    have "clean (buf[outp := NUL]) 0 outp"
      using b(4) by (simp add: clean_def)
    with False b(1) o show ?thesis unfolding r by simp
  qed
qed

lemma takeWhile_length_le:
  assumes "i < length xs" "\<not> P (xs ! i)"
  shows "length (takeWhile P xs) \<le> i"
proof (rule ccontr)
  assume "\<not> length (takeWhile P xs) \<le> i"
  then have lt: "i < length (takeWhile P xs)" by simp
  then have "takeWhile P xs ! i = xs ! i" by (rule takeWhile_nth)
  moreover from lt have "takeWhile P xs ! i \<in> set (takeWhile P xs)" by simp
  then have "P (takeWhile P xs ! i)" by (rule set_takeWhileD[THEN conjunct2])
  ultimately show False using assms(2) by simp
qed

lemma rust_demangle_sym_fits:
  assumes "symb \<noteq> []"
  shows "\<exists>blk. rust_demangle_sym (Some symb) = Inr (Some blk)
           \<and> length blk = length symb + 1
           \<and> length (c_string blk) < length symb
           \<and> blk ! length (c_string blk) = NUL"
proof -
  let ?r = "rust_demangle_body symb"
  from rust_demangle_body_bounds[OF assms]
  have b: "out_cursor ?r \<le> length symb" "0 < out_cursor ?r"
    "length (buffer ?r) = length symb + 1" "buffer ?r ! (out_cursor ?r - 1) = NUL"
    by simp_all
  have e: "rust_demangle_sym (Some symb) = Inr (Some (buffer ?r))"
    using b(1) by (simp add: rust_demangle_sym_def Let_def)
  have i: "out_cursor ?r - 1 < length (buffer ?r)" using b by simp
  have "length (c_string (buffer ?r)) \<le> out_cursor ?r - 1"
    unfolding c_string_def using i b(4) by (intro takeWhile_length_le) simp_all
  with b have l: "length (c_string (buffer ?r)) < length symb" by simp
  then have "length (takeWhile (\<lambda>c. c \<noteq> NUL) (buffer ?r)) < length (buffer ?r)"
    using b(3) by (simp add: c_string_def)
  from nth_length_takeWhile[OF this]
  have "buffer ?r ! length (c_string (buffer ?r)) = NUL" by (simp add: c_string_def)
  with e b(3) l show ?thesis by simp
qed

lemma rust_is_mangledD:
  "rust_is_mangled (Some symb) \<Longrightarrow>
   hash_prefix_len + hash_len < length symb
   \<and> is_prefixed_hash (drop (length symb - (hash_prefix_len + hash_len)) symb)
   \<and> looks_like_rust symb (length symb - (hash_prefix_len + hash_len))"
  by (simp add: rust_is_mangled_def Let_def split: if_splits)

lemma rust_demangle_no_fail:
  assumes "rust_is_mangled (Some symb)"
  shows "\<not> went_to_fail (rust_demangle_body symb)"
proof -
  let ?L = "length symb - (hash_prefix_len + hash_len)"
  from rust_is_mangledD[OF assms]
  have n: "hash_prefix_len + hash_len < length symb" and ll: "looks_like_rust symb ?L"
    by simp_all
  have "\<not> fst (rust_scan (symb @ [NUL]) 0 0 (int ?L))"
    using ll n by (intro rust_scan_no_fail[where orig = symb and L = ?L])
                  (simp_all add: hash_prefix_len_def hash_len_def)
  moreover have "int ?L = int (length symb) - int (hash_prefix_len + hash_len)"
    using n by simp
  ultimately show ?thesis
    by (auto simp add: rust_demangle_body_def Let_def split: prod.splits)
qed

lemma c_string_clean:
  assumes "clean b 0 m" "m < length b" "b ! m = NUL"
  shows "c_string b = take m b"
  unfolding c_string_def
  using assms by (intro takeWhile_eq_take_P_nth) (simp_all add: clean_def)

lemma rust_demangle_no_placeholder:
  assumes "rust_is_mangled (Some symb)"
  shows "\<exists>blk. rust_demangle_sym (Some symb) = Inr (Some blk) \<and> CHR ''?'' \<notin> set (c_string blk)"
proof -
  let ?r = "rust_demangle_body symb"
  from rust_is_mangledD[OF assms] have ne: "symb \<noteq> []" by auto
  from rust_demangle_body_bounds[OF ne] rust_demangle_no_fail[OF assms]
  have b: "out_cursor ?r \<le> length symb" "0 < out_cursor ?r"
    "length (buffer ?r) = length symb + 1" "buffer ?r ! (out_cursor ?r - 1) = NUL"
    "clean (buffer ?r) 0 (out_cursor ?r - 1)"
    by simp_all
  have e: "rust_demangle_sym (Some symb) = Inr (Some (buffer ?r))"
    using b(1) by (simp add: rust_demangle_sym_def Let_def)
  have c: "c_string (buffer ?r) = take (out_cursor ?r - 1) (buffer ?r)"
    using b by (intro c_string_clean) simp_all
  have "CHR ''?'' \<notin> set (take (out_cursor ?r - 1) (buffer ?r))"
  proof
    assume "CHR ''?'' \<in> set (take (out_cursor ?r - 1) (buffer ?r))"
    then obtain k where "k < out_cursor ?r - 1" "buffer ?r ! k = CHR ''?''"
      by (auto simp: in_set_conv_nth)
    with b(5) show False by (simp add: clean_def)
  qed
  with e c show ?thesis by simp
qed

lemma soname_loop_length:
  "soname_loop g cs acc = (e, sobuf, rest) \<Longrightarrow> length sobuf + length rest \<le> length acc + length cs"
proof (induction g cs acc arbitrary: e sobuf rest rule: soname_loop.induct)
  case (1 g acc)
  then show ?case by simp
next
  case (2 g c cs acc)
  show ?case
  proof (cases "c = CHR ''_''")
    case True
    with "2.prems" show ?thesis by auto
  next
    case False
    note nu = this
    show ?thesis
    proof (cases "c \<noteq> CHR ''Z''")
      case True
      with nu "2.prems" have "soname_loop g cs (EMITSO g acc c) = (e, sobuf, rest)" by simp
      from "2.IH"(1)[OF nu True this] show ?thesis by (simp add: EMITSO_def split: if_splits)
    next
      case False
      show ?thesis
      proof (cases "z_escape (ch cs 0)")
        case None
        with nu False "2.prems" show ?thesis by auto
      next
        case (Some x)
        with nu False "2.prems"
        have "soname_loop g (drop 1 cs) (EMITSO g acc x) = (e, sobuf, rest)" by simp
        from "2.IH"(2)[OF nu False Some this] show ?thesis
          by (simp add: EMITSO_def split: if_splits)
      qed
    qed
  qed
qed

lemma fnname_loop_length:
  "fnname_loop cs acc = (e, fnbuf) \<Longrightarrow> length fnbuf \<le> length acc + length cs"
proof (induction cs acc arbitrary: e fnbuf rule: fnname_loop.induct)
  case (1 acc)
  then show ?case by simp
next
  case (2 c cs acc)
  show ?case
  proof (cases "c \<noteq> CHR ''Z''")
    case True
    with "2.prems" have "fnname_loop cs (EMITFN acc c) = (e, fnbuf)" by simp
    from "2.IH"(1)[OF True this] show ?thesis by (simp add: EMITFN_def)
  next
    case False
    show ?thesis
    proof (cases "z_escape (ch cs 0)")
      case None
      with False "2.prems" show ?thesis by auto
    next
      case (Some x)
      with False "2.prems" have "fnname_loop (drop 1 cs) (EMITFN acc x) = (e, fnbuf)" by simp
      from "2.IH"(2)[OF False Some this] show ?thesis by (simp add: EMITFN_def)
    qed
  qed
qed

lemma z_scan_length:
  assumes "z_scan s rq o1 = Inr r"
  shows "(case so r of None \<Rightarrow> 0 | Some sn \<Rightarrow> length sn) + length (fn r) \<le> length s - 12"
proof -
  obtain e sobuf rest where sl: "soname_loop (want_so rq) (drop 12 s) [] = (e, sobuf, rest)"
    by (cases "soname_loop (want_so rq) (drop 12 s) []") auto
  from soname_loop_length[OF sl] have l: "length sobuf + length rest \<le> length s - 12" by simp
  show ?thesis
  proof (cases e)
    case True
    with sl assms l show ?thesis by (auto simp add: z_scan_def)
  next
    case False
    note ne = this
    show ?thesis
    proof (cases "ch s 10 = CHR ''Z''")
      case False
      with ne sl assms l show ?thesis
        by (auto simp add: z_scan_def fnname_copy_loop_eq split: if_splits)
    next
      case True
      obtain e2 fnbuf where fl: "fnname_loop (drop 1 rest) [] = (e2, fnbuf)"
        by (cases "fnname_loop (drop 1 rest) []") auto
      from fnname_loop_length[OF fl] have "length fnbuf \<le> length rest" by simp
      with True ne sl fl assms l show ?thesis
        by (auto simp add: z_scan_def split: if_splits)
    qed
  qed
qed

lemma maybe_Z_demangle_length:
  assumes "VG_maybe_Z_demangle symb rq = Inr r"
  shows "(case so r of None \<Rightarrow> 0 | Some sn \<Rightarrow> length sn) + length (fn r) \<le> length symb - 12"
proof (cases "header_valid symb")
  case False
  with assms show ?thesis by (auto simp add: VG_maybe_Z_demangle_def)
next
  case True
  with assms obtain o3 where "z_scan symb rq o3 = Inr r"
    by (auto simp add: VG_maybe_Z_demangle_def Let_def split: if_splits)
  then show ?thesis by (rule z_scan_length)
qed


section \<open>The Rust heuristic against the specification\<close>

lemma is_lower_hex_iff:
  "is_lower_hex c = (in_range (CHR ''0'') (CHR ''9'') c \<or> in_range (CHR ''a'') (CHR ''f'') c)"
  unfolding is_lower_hex_def lower_hex_digits_def in_range_def
  apply (simp add: char_eq_code)
  apply (simp add: code_def)
  apply presburger
  done

lemma plain_rust_char_iff:
  "plain_rust_char c = (alnum c \<or> c = CHR ''_'' \<or> c = CHR '':'' \<or> c = CHR ''.'')"
  unfolding plain_rust_char_def plain_rust_chars_def alnum_def in_range_def
  apply (simp add: char_eq_code)
  apply (simp add: code_def)
  apply presburger
  done

lemma mark_digit:
  "in_range (CHR ''0'') (CHR ''9'') c \<Longrightarrow> seen[code c - code (CHR ''0'') := True] = mark seen c"
  by (simp add: mark_def hexval_def)

lemma mark_letter:
  "\<not> in_range (CHR ''0'') (CHR ''9'') c \<Longrightarrow>
   seen[code c - code (CHR ''a'') + 10 := True] = mark seen c"
  by (simp add: mark_def hexval_def)

lemma hash_digits_loop_eq:
  "hash_digits_loop n str seen =
     (if n \<le> length str \<and> list_all is_lower_hex (take n str)
      then Some (foldl mark seen (take n str)) else None)"
proof (induction n arbitrary: str seen)
  case 0
  show ?case by simp
next
  case (Suc n)
  show ?case
  proof (cases str)
    case Nil
    then show ?thesis by (simp add: ch_def NUL_def in_range_def code_def Let_def)
  next
    case (Cons c cs)
    then show ?thesis
      using Suc[of cs]
      by (simp add: ch_def Let_def is_lower_hex_iff mark_digit mark_letter)
  qed
qed

lemma foldl_mark_length: "length (foldl mark seen xs) = length seen"
  by (induction xs arbitrary: seen) (simp_all add: mark_def)

lemma foldl_mark_nth:
  "i < length seen \<Longrightarrow> foldl mark seen xs ! i = (seen ! i \<or> i \<in> hexval ` set xs)"
proof (induction xs arbitrary: seen)
  case Nil
  then show ?case by simp
next
  case (Cons a xs)
  have "mark seen a ! i = (seen ! i \<or> i = hexval a)"
  proof (cases "hexval a < length seen")
    case True
    then show ?thesis using Cons.prems by (auto simp: mark_def nth_list_update)
  next
    case False
    then show ?thesis using Cons.prems by (auto simp: mark_def list_update_beyond)
  qed
  moreover have "foldl mark (mark seen a) xs ! i = (mark seen a ! i \<or> i \<in> hexval ` set xs)"
    using Cons.prems by (intro Cons.IH) (simp add: mark_def)
  ultimately show ?case by auto
qed

lemma code_values:
  "code (CHR ''0'') = 48" "code (CHR ''9'') = 57" "code (CHR ''a'') = 97" "code (CHR ''f'') = 102"
  by (simp_all add: code_def)

lemma hexval_less: "is_lower_hex c \<Longrightarrow> hexval c < 16"
  unfolding is_lower_hex_iff hexval_def in_range_def code_values
  by (simp split: if_splits) arith

lemma hexval_inj:
  assumes "is_lower_hex c" "is_lower_hex d" "hexval c = hexval d"
  shows "c = d"
proof -
  from assms have "code c = code d"
    unfolding is_lower_hex_iff hexval_def in_range_def code_values
    by (simp split: if_splits) arith+
  then show ?thesis by (simp add: char_eq_code)
qed

lemma count_seen_card:
  assumes "list_all is_lower_hex hash"
  shows "count_seen (foldl mark (replicate 16 False) hash) = int (card (set hash))"
proof -
  let ?sf = "foldl mark (replicate 16 False) hash"
  from assms have hex: "\<And>c. c \<in> set hash \<Longrightarrow> is_lower_hex c" by (simp add: list_all_iff)
  have "{i. ?sf ! i} \<inter> set [0..<16] = hexval ` set hash"
  proof (intro set_eqI iffI)
    fix i assume "i \<in> {i. ?sf ! i} \<inter> set [0..<16]"
    then have "i < 16" "?sf ! i" by simp_all
    then show "i \<in> hexval ` set hash" by (simp add: foldl_mark_nth)
  next
    fix i assume i: "i \<in> hexval ` set hash"
    then obtain c where "c \<in> set hash" "i = hexval c" by blast
    with hex have "i < 16" by (simp add: hexval_less)
    with i show "i \<in> {i. ?sf ! i} \<inter> set [0..<16]" by (simp add: foldl_mark_nth)
  qed
  then have "length (filter (\<lambda>i. ?sf ! i) [0..<16]) = card (hexval ` set hash)"
    by (simp add: distinct_length_filter)
  also have "\<dots> = card (set hash)"
    by (intro card_image inj_onI hexval_inj hex)
  finally show ?thesis by (simp add: count_seen_def)
qed

lemma is_prefixed_hash_iff:
  assumes "length tail = 19"
  shows "is_prefixed_hash tail =
         (take 3 tail = ''::h'' \<and> list_all is_lower_hex (drop 3 tail)
          \<and> 5 \<le> card (set (drop 3 tail)) \<and> card (set (drop 3 tail)) \<le> 15)"
proof (cases "list_all is_lower_hex (drop 3 tail)")
  case True
  with assms show ?thesis
    by (simp add: is_prefixed_hash_def strncmp_eq_def hash_prefix_def hash_prefix_len_def
          hash_len_def hash_digits_loop_eq count_seen_card Let_def)
next
  case False
  with assms show ?thesis
    by (simp add: is_prefixed_hash_def strncmp_eq_def hash_prefix_def hash_prefix_len_def
          hash_len_def hash_digits_loop_eq Let_def)
qed

lemma token_end_token: "tok \<in> set rust_tokens \<Longrightarrow> token_end (tok @ a) = tok"
  by (erule rust_token_cases) (simp_all add: token_end_def)

lemma token_unique:
  assumes "tok \<in> set rust_tokens" "tok' \<in> set rust_tokens" "tok @ a = tok' @ b"
  shows "tok = tok' \<and> a = b"
proof -
  have "tok = token_end (tok @ a)" using assms(1) by (simp add: token_end_token)
  also have "\<dots> = token_end (tok' @ b)" using assms(3) by simp
  also have "\<dots> = tok'" using assms(2) by (simp add: token_end_token)
  finally have "tok = tok'" .
  with assms(3) show ?thesis by simp
qed

lemma rust_tokens_all:
  "list_all (\<lambda>tok. tok \<noteq> [] \<and> hd tok = CHR ''$'' \<and> CHR '':'' \<notin> set tok) rust_tokens"
  by (simp add: rust_tokens_def)

lemma rust_token_props:
  "tok \<in> set rust_tokens \<Longrightarrow> tok \<noteq> [] \<and> hd tok = CHR ''$'' \<and> CHR '':'' \<notin> set tok"
  using rust_tokens_all by (auto simp: list_all_iff)

lemma token_no_dots:
  "tok \<in> set rust_tokens \<Longrightarrow> sublist ''...'' (tok @ rest) = sublist ''...'' rest"
  by (erule rust_token_cases) (simp_all add: sublist_Cons_right)

lemma not_plain_dollar: "\<not> plain_rust_char (CHR ''$'')"
  by (simp add: plain_rust_char_def plain_rust_chars_def)

lemma rust_body_Cons:
  "rust_body (c # cs) =
     ((plain_rust_char c \<and> rust_body cs)
      \<or> (\<exists>tok\<in>set rust_tokens. \<exists>rest. c # cs = tok @ rest \<and> rust_body rest))"
  by (subst rust_body.simps) auto

lemma rust_body_plain:
  assumes "c \<noteq> CHR ''$''"
  shows "rust_body (c # cs) = (plain_rust_char c \<and> rust_body cs)"
proof -
  have "\<not> (\<exists>tok\<in>set rust_tokens. \<exists>rest. c # cs = tok @ rest \<and> rust_body rest)"
  proof
    assume "\<exists>tok\<in>set rust_tokens. \<exists>rest. c # cs = tok @ rest \<and> rust_body rest"
    then obtain tok rest where t: "tok \<in> set rust_tokens" "c # cs = tok @ rest" by blast
    from rust_token_props[OF t(1)] obtain t1 where "tok = CHR ''$'' # t1" by (cases tok) auto
    with t(2) assms show False by simp
  qed
  then show ?thesis using rust_body_Cons[of c cs] by blast
qed

lemma rust_body_token:
  assumes "tok \<in> set rust_tokens"
  shows "rust_body (tok @ rest) = rust_body rest"
proof
  assume "rust_body rest"
  with assms show "rust_body (tok @ rest)" by (rule rb_token)
next
  assume a: "rust_body (tok @ rest)"
  from rust_token_props[OF assms] obtain t1 where t1: "tok = CHR ''$'' # t1" by (cases tok) auto
  from a have "rust_body (CHR ''$'' # (t1 @ rest))" unfolding t1 by simp
  then obtain tok' rest' where t': "tok' \<in> set rust_tokens"
    "CHR ''$'' # (t1 @ rest) = tok' @ rest'" "rust_body rest'"
    unfolding rust_body_Cons using not_plain_dollar by blast
  from t'(2) have "tok @ rest = tok' @ rest'" unfolding t1 by simp
  from token_unique[OF assms t'(1) this] t'(3) show "rust_body rest" by simp
qed

lemma take3_dots: "(take 3 s = ''...'') = prefix ''...'' s"
proof (cases s)
  case Nil
  then show ?thesis by simp
next
  case (Cons a s1)
  note s = this
  show ?thesis
  proof (cases s1)
    case Nil
    with s show ?thesis by simp
  next
    case (Cons b s2)
    with s show ?thesis by (cases s2) (auto simp: eval_nat_numeral)
  qed
qed

lemma dots_boundary:
  "prefix ''...'' (pre @ CHR '':'' # suf) = prefix ''...'' pre"
proof (cases pre)
  case Nil
  then show ?thesis by simp
next
  case (Cons a s1)
  note s = this
  show ?thesis
  proof (cases s1)
    case Nil
    with s show ?thesis by simp
  next
    case (Cons b s2)
    with s show ?thesis by (cases s2) auto
  qed
qed

lemma looks_like_rust_iff:
  "looks_like_rust (pre @ CHR '':'' # suf) (length pre) = (rust_body pre \<and> \<not> sublist ''...'' pre)"
proof (induction "length pre" arbitrary: pre rule: less_induct)
  case less
  let ?str = "pre @ CHR '':'' # suf"
  show ?case
  proof (cases pre)
    case Nil
    then show ?thesis by (simp add: looks_like_rust_0 rb_Nil)
  next
    case (Cons c cs)
    have pos: "0 < length pre" using Cons by simp
    note un = looks_like_rust_unfold[OF pos, of ?str]
    have c0: "ch ?str 0 = c" using Cons by (simp add: ch_def)
    have d1: "drop 1 ?str = cs @ CHR '':'' # suf" using Cons by simp
    have ih: "looks_like_rust (cs @ CHR '':'' # suf) (length pre - 1)
              = (rust_body cs \<and> \<not> sublist ''...'' cs)"
      using less[of cs] Cons by simp
    show ?thesis
    proof (cases "c = CHR ''$''")
      case True
      show ?thesis
      proof (cases "\<exists>tok\<in>set rust_tokens. \<exists>rest. ?str = tok @ rest")
        case False
        have "ch ?str 0 = CHR ''$''" using c0 True by simp
        from looks_like_rust_no_token[OF pos this False]
        have l: "\<not> looks_like_rust ?str (length pre)" .
        have "\<not> rust_body pre"
        proof
          assume "rust_body pre"
          then obtain tok rest where "tok \<in> set rust_tokens" "pre = tok @ rest"
            unfolding Cons rust_body_Cons using True not_plain_dollar by blast
          then have "tok \<in> set rust_tokens" "?str = tok @ (rest @ CHR '':'' # suf)" by simp_all
          with False show False by blast
        qed
        with l show ?thesis by simp
      next
        case T: True
        then obtain tok rest where tok: "tok \<in> set rust_tokens" and e: "?str = tok @ rest"
          by blast
        from rust_token_props[OF tok] have tp: "tok \<noteq> []" "CHR '':'' \<notin> set tok" by simp_all
        have "\<exists>us. pre = tok @ us"
        proof -
          from e obtain us where
            us: "pre = tok @ us \<and> us @ CHR '':'' # suf = rest
                 \<or> pre @ us = tok \<and> CHR '':'' # suf = us @ rest"
            unfolding append_eq_append_conv2 by blast
          then show ?thesis
          proof
            assume "pre = tok @ us \<and> us @ CHR '':'' # suf = rest"
            then show ?thesis by blast
          next
            assume a: "pre @ us = tok \<and> CHR '':'' # suf = us @ rest"
            show ?thesis
            proof (cases us)
              case Nil
              with a show ?thesis by auto
            next
              case (Cons u us')
              with a have "u = CHR '':''" by simp
              with Cons a have "CHR '':'' \<in> set tok" by auto
              with tp show ?thesis by simp
            qed
          qed
        qed
        then obtain us where pre: "pre = tok @ us" by blast
        have lu: "length us < length pre" using pre tp by simp
        have "looks_like_rust ?str (length pre)
              = looks_like_rust (us @ CHR '':'' # suf) (length pre - length tok)"
          using looks_like_rust_token[OF tok pos, of "us @ CHR '':'' # suf"] pre by simp
        also have "length pre - length tok = length us" using pre by simp
        also have "looks_like_rust (us @ CHR '':'' # suf) (length us)
                   = (rust_body us \<and> \<not> sublist ''...'' us)"
          using less[OF lu] .
        also have "\<dots> = (rust_body pre \<and> \<not> sublist ''...'' pre)"
          unfolding pre by (simp add: rust_body_token[OF tok] token_no_dots[OF tok])
        finally show ?thesis .
      qed
    next
      case False
      note nd = this
      have rb: "rust_body pre = (plain_rust_char c \<and> rust_body cs)"
        unfolding Cons using nd by (rule rust_body_plain)
      show ?thesis
      proof (cases "c = CHR ''.''")
        case True
        have "looks_like_rust ?str (length pre)
              = (\<not> strncmp_eq ?str ''...'' 3
                 \<and> looks_like_rust (cs @ CHR '':'' # suf) (length pre - 1))"
          using un c0 True d1 by simp
        also have "strncmp_eq ?str ''...'' 3 = prefix ''...'' pre"
        proof -
          have "strncmp_eq ?str ''...'' 3 = (take 3 ?str = ''...'')"
            by (simp add: strncmp_eq_def del: take_append)
          also have "\<dots> = prefix ''...'' ?str" by (rule take3_dots)
          also have "\<dots> = prefix ''...'' pre" by (rule dots_boundary)
          finally show ?thesis .
        qed
        finally have "looks_like_rust ?str (length pre)
              = (\<not> prefix ''...'' pre \<and> rust_body cs \<and> \<not> sublist ''...'' cs)"
          using ih by simp
        moreover have "plain_rust_char c" using True by (simp add: plain_rust_char_iff)
        moreover have "sublist ''...'' pre = (prefix ''...'' pre \<or> sublist ''...'' cs)"
          unfolding Cons by (rule sublist_Cons_right)
        ultimately show ?thesis using rb by auto
      next
        case False
        have sl: "sublist ''...'' pre = sublist ''...'' cs"
          unfolding Cons using False by (simp add: sublist_Cons_right)
        show ?thesis
        proof (cases "alnum c \<or> c = CHR ''_'' \<or> c = CHR '':''")
          case True
          with un c0 nd False d1
          have "looks_like_rust ?str (length pre)
                = looks_like_rust (cs @ CHR '':'' # suf) (length pre - 1)"
            by simp
          moreover have "plain_rust_char c" using True by (auto simp add: plain_rust_char_iff)
          ultimately show ?thesis using ih rb sl by simp
        next
          case F: False
          with un c0 nd False have "\<not> looks_like_rust ?str (length pre)" by simp
          moreover have "\<not> plain_rust_char c" using F False by (simp add: plain_rust_char_iff)
          ultimately show ?thesis using rb by simp
        qed
      qed
    qed
  qed
qed

lemma rust_is_mangled_decomposed:
  assumes "length hash = 16" "body \<noteq> []"
  shows "rust_is_mangled (Some (body @ ''::h'' @ hash)) =
         (list_all is_lower_hex hash \<and> 5 \<le> card (set hash) \<and> card (set hash) \<le> 15
          \<and> rust_body body \<and> \<not> sublist ''...'' body)"
proof -
  let ?s = "body @ ''::h'' @ hash"
  have n: "length ?s - (hash_prefix_len + hash_len) = length body"
    and l: "\<not> length ?s \<le> hash_prefix_len + hash_len"
    using assms by (simp_all add: hash_prefix_len_def hash_len_def)
  have d: "drop (length body) ?s = ''::h'' @ hash" by simp
  have "length (''::h'' @ hash) = 19" using assms by simp
  from is_prefixed_hash_iff[OF this]
  have ph: "is_prefixed_hash (''::h'' @ hash) =
            (list_all is_lower_hex hash \<and> 5 \<le> card (set hash) \<and> card (set hash) \<le> 15)"
    by simp
  have "looks_like_rust ?s (length body) = (rust_body body \<and> \<not> sublist ''...'' body)"
    using looks_like_rust_iff[of body "CHR '':'' # CHR ''h'' # hash"] by simp
  with ph show ?thesis
    unfolding rust_is_mangled_def Let_def option.case n d using l by auto
qed

lemma rust_is_mangled_iff_spec:
  "rust_is_mangled (Some s) = rust_mangled_spec s"
proof
  assume m: "rust_is_mangled (Some s)"
  from rust_is_mangledD[OF m] have n: "19 < length s"
    by (simp add: hash_prefix_len_def hash_len_def)
  define body where "body = take (length s - 19) s"
  define tail where "tail = drop (length s - 19) s"
  define hash where "hash = drop 3 tail"
  from rust_is_mangledD[OF m] have ph: "is_prefixed_hash tail"
    by (simp add: hash_prefix_len_def hash_len_def tail_def)
  have lt: "length tail = 19" using n by (simp add: tail_def)
  from ph is_prefixed_hash_iff[OF lt] have t3: "take 3 tail = ''::h''" by simp
  have "tail = take 3 tail @ hash" by (simp add: hash_def)
  then have tail: "tail = ''::h'' @ hash" unfolding t3 .
  have "s = body @ tail" by (simp add: body_def tail_def)
  then have s: "s = body @ ''::h'' @ hash" using tail by simp
  have lh: "length hash = 16" using lt by (simp add: hash_def)
  have bn: "body \<noteq> []" using n by (auto simp add: body_def)
  from m rust_is_mangled_decomposed[OF lh bn] s
  have "list_all is_lower_hex hash \<and> 5 \<le> card (set hash) \<and> card (set hash) \<le> 15
          \<and> rust_body body \<and> \<not> sublist ''...'' body"
    by simp
  with s lh bn show "rust_mangled_spec s"
    unfolding rust_mangled_spec_def by blast
next
  assume "rust_mangled_spec s"
  then obtain body hash where s: "s = body @ ''::h'' @ hash" and lh: "length hash = 16"
    and bn: "body \<noteq> []"
    and r: "list_all is_lower_hex hash \<and> 5 \<le> card (set hash) \<and> card (set hash) \<le> 15
          \<and> rust_body body \<and> \<not> sublist ''...'' body"
    unfolding rust_mangled_spec_def by blast
  from rust_is_mangled_decomposed[OF lh bn] r
  have "rust_is_mangled (Some (body @ ''::h'' @ hash))" by blast
  then show "rust_is_mangled (Some s)" unfolding s .
qed


section \<open>The claims\<close>

subsection \<open>Claim C1: the grammar of Z-encoded names\<close>

text \<open>
  Claim C1, as stated: every input matching the grammar \<open>_vg\<close>, \<open>r|w\<close>, five digits,
  \<open>Z\<close>, \<open>Z|U\<close>, \<open>_\<close>, encoded soname, \<open>_\<close>, function name makes
  \<open>VG_(maybe_Z_demangle)\<close> return True.  It does not: the first symbol below matches
  that grammar with both fields well-formed, but has tag \<open>0000\<close> with priority \<open>5\<close> and
  is rejected; the second one matches it too (soname field \<open>VG\<close>), but its soname field
  starts with the raw bytes \<open>VG_Z_\<close> and the run ends in the fatal assertion.
\<close>

theorem C1_counterexample:
  "z_header_grammar ''_vgr00005ZZ_libc_malloc''
   \<and> z_fields ''_vgr00005ZZ_libc_malloc'' = Some (''libc'', ''malloc'')
   \<and> VG_maybe_Z_demangle ''_vgr00005ZZ_libc_malloc'' all_outputs =
       Inr \<lparr>ret = False, so = Some [], fn = [], isWrap = None, eclassTag = None,
            eclassPrio = None\<rparr>
   \<and> z_header_grammar ''_vgr00000ZU_VG_Z_LIBC_SONAME_malloc''
   \<and> z_fields ''_vgr00000ZU_VG_Z_LIBC_SONAME_malloc'' = Some (''VG'', ''Z_LIBC_SONAME_malloc'')
   \<and> VG_maybe_Z_demangle ''_vgr00000ZU_VG_Z_LIBC_SONAME_malloc'' all_outputs =
       Inl Assert_VG_Z_prefix"
  by code_simp

text \<open>
  Claim C1, amended: for every input whose header matches the grammar, whose tag is
  not \<open>0000\<close> with a non-zero priority, and that does not continue with the raw bytes
  \<open>VG_Z_\<close>: if the soname field ends at a \<open>_\<close> and both fields decode (the function
  name by the table when the eleventh byte is \<open>Z\<close>, verbatim when it is \<open>U\<close>), the
  function returns True with exactly that soname and function name, \<open>isWrap\<close> true
  exactly when the fourth byte is \<open>w\<close>, \<open>eclassTag\<close> the first four digits read as
  a decimal number and \<open>eclassPrio\<close> the fifth digit (each output only if its pointer
  was passed); and if a field does not decode, which is what a selector outside the
  table causes, or the delimiter is missing, it returns False.
\<close>

theorem C1_grammar_decodes:
  assumes "z_header_grammar symb" and "\<not> tag0_with_prio symb" and "\<not> raw_VG_Z_prefix symb"
  shows "(\<forall>sn fnn. z_fields symb = Some (sn, fnn) \<longrightarrow>
            VG_maybe_Z_demangle symb rq =
              Inr \<lparr>ret = True, so = (if want_so rq then Some sn else None), fn = fnn,
                   isWrap = (if want_isWrap rq then Some (symb ! 3 = CHR ''w'') else None),
                   eclassTag = (if want_eclassTag rq
                                then Some (read_decimal [symb ! 4, symb ! 5, symb ! 6, symb ! 7])
                                else None),
                   eclassPrio = (if want_eclassPrio rq then Some (read_decimal [symb ! 8])
                                 else None)\<rparr>)
         \<and> (z_fields symb = None \<longrightarrow>
              (\<exists>r. VG_maybe_Z_demangle symb rq = Inr r \<and> \<not> ret r))"
proof -
  from assms(1) have len: "12 \<le> length symb" by (simp add: z_header_grammar_def)
  show ?thesis
    unfolding demangle_after_header[OF assms]
    using z_scan_fields[OF len] z_scan_no_fields[OF len] by simp
qed

theorem C1_grammar_decodes_witness:
  "z_header_grammar ''_vgr00000ZZ_libcZdsoZa_malloc''
   \<and> \<not> tag0_with_prio ''_vgr00000ZZ_libcZdsoZa_malloc''
   \<and> \<not> raw_VG_Z_prefix ''_vgr00000ZZ_libcZdsoZa_malloc''
   \<and> z_fields ''_vgr00000ZZ_libcZdsoZa_malloc'' = Some (''libc.so*'', ''malloc'')
   \<and> VG_maybe_Z_demangle ''_vgr00000ZZ_libcZdsoZa_malloc'' all_outputs =
       Inr \<lparr>ret = True, so = Some ''libc.so*'', fn = ''malloc'', isWrap = Some False,
            eclassTag = Some 0, eclassPrio = Some 0\<rparr>
   \<and> z_header_grammar ''_vgw12345ZZ_libc_maZq''
   \<and> \<not> tag0_with_prio ''_vgw12345ZZ_libc_maZq''
   \<and> \<not> raw_VG_Z_prefix ''_vgw12345ZZ_libc_maZq''
   \<and> z_fields ''_vgw12345ZZ_libc_maZq'' = None
   \<and> (\<exists>r. VG_maybe_Z_demangle ''_vgw12345ZZ_libc_maZq'' all_outputs = Inr r \<and> \<not> ret r)"
proof -
  let ?a = "''_vgr00000ZZ_libcZdsoZa_malloc''" and ?b = "''_vgw12345ZZ_libc_maZq''"
  have a: "z_header_grammar ?a" "\<not> tag0_with_prio ?a" "\<not> raw_VG_Z_prefix ?a"
    and fa: "z_fields ?a = Some (''libc.so*'', ''malloc'')"
    by code_simp+
  have b: "z_header_grammar ?b" "\<not> tag0_with_prio ?b" "\<not> raw_VG_Z_prefix ?b"
    and fb: "z_fields ?b = None"
    by code_simp+
  have rd: "read_decimal ''0000'' = 0" "read_decimal ''0'' = 0" by code_simp+
  from C1_grammar_decodes[OF a, of all_outputs] fa rd
  have "VG_maybe_Z_demangle ?a all_outputs =
       Inr \<lparr>ret = True, so = Some ''libc.so*'', fn = ''malloc'', isWrap = Some False,
            eclassTag = Some 0, eclassPrio = Some 0\<rparr>"
    by (simp add: all_outputs_def)
  moreover from C1_grammar_decodes[OF b, of all_outputs] fb
  have "\<exists>r. VG_maybe_Z_demangle ?b all_outputs = Inr r \<and> \<not> ret r"
    by simp
  ultimately show ?thesis using a b fa fb by simp
qed


subsection \<open>Claim C2: the release of the retained block\<close>





subsection \<open>Claim C3: the reserved prefix\<close>

text \<open>
  Claim C3, as stated: a symbol with a valid header whose soname field Z-decodes to
  something starting with \<open>VG_Z_\<close> triggers the fatal assertion.  It does not: the
  soname field \<open>VGZuZZZuanything\<close> decodes to \<open>VG_Z_anything\<close> and the function
  returns True with that soname.
\<close>

theorem C3_counterexample:
  "z_header_grammar ''_vgr00000ZZ_VGZuZZZuanything_f''
   \<and> \<not> tag0_with_prio ''_vgr00000ZZ_VGZuZZZuanything_f''
   \<and> z_decode (soname_field ''_vgr00000ZZ_VGZuZZZuanything_f'') = Some ''VG_Z_anything''
   \<and> VG_maybe_Z_demangle ''_vgr00000ZZ_VGZuZZZuanything_f'' all_outputs =
       Inr \<lparr>ret = True, so = Some ''VG_Z_anything'', fn = ''f'', isWrap = Some False,
            eclassTag = Some 0, eclassPrio = Some 0\<rparr>"
  by code_simp

text \<open>
  Claim C3, amended: for every symbol with a valid header whose bytes 12 to 16 are
  literally \<open>VG_Z_\<close> (the unexpanded name of a soname macro), the function ends in
  the fatal assertion, whatever outputs were asked for; it returns neither False nor
  True.
\<close>

theorem C3_raw_prefix_is_fatal:
  assumes "z_header_grammar symb" and "\<not> tag0_with_prio symb" and "raw_VG_Z_prefix symb"
  shows "VG_maybe_Z_demangle symb rq = Inl Assert_VG_Z_prefix"
  using assms by (rule raw_prefix_aborts)

theorem C3_raw_prefix_is_fatal_witness:
  "z_header_grammar ''_vgr00000ZU_VG_Z_LIBC_SONAME_malloc''
   \<and> \<not> tag0_with_prio ''_vgr00000ZU_VG_Z_LIBC_SONAME_malloc''
   \<and> raw_VG_Z_prefix ''_vgr00000ZU_VG_Z_LIBC_SONAME_malloc''
   \<and> VG_maybe_Z_demangle ''_vgr00000ZU_VG_Z_LIBC_SONAME_malloc'' all_outputs
       = Inl Assert_VG_Z_prefix"
proof -
  let ?a = "''_vgr00000ZU_VG_Z_LIBC_SONAME_malloc''"
  have a: "z_header_grammar ?a" "\<not> tag0_with_prio ?a" "raw_VG_Z_prefix ?a"
    by code_simp+
  from C3_raw_prefix_is_fatal[OF a, of all_outputs] a show ?thesis by simp
qed


subsection \<open>Claim C4: the Rust heuristic\<close>

text \<open>
  Claim C4: \<open>rust_is_mangled(s)\<close> is true if and only if \<open>s\<close> ends with \<open>::h\<close>
  followed by exactly sixteen lowercase hex digits, at least one character precedes that
  suffix, the sixteen digits use between 5 and 15 distinct values, and every character
  in front of the suffix is one of \<open>a\<close>--\<open>z\<close>, \<open>A\<close>--\<open>Z\<close>, \<open>0\<close>--\<open>9\<close>,
  \<open>_\<close>, \<open>:\<close>, \<open>.\<close> or part of a recognised \<open>$\<close>-token, with no three dots in a
  row.  In particular it is false for every string that ends with \<open>::h\<close> and sixteen
  characters of fewer than 5 or more than 15 distinct values.
\<close>

theorem C4_rust_is_mangled_iff:
  "(rust_is_mangled (Some s) = rust_mangled_spec s)
   \<and> (\<forall>body hash. s = body @ ''::h'' @ hash \<and> length hash = 16
          \<and> (card (set hash) < 5 \<or> 15 < card (set hash))
          \<longrightarrow> \<not> rust_is_mangled (Some s))"
proof (intro conjI allI impI)
  show "rust_is_mangled (Some s) = rust_mangled_spec s" by (rule rust_is_mangled_iff_spec)
next
  fix body hash
  assume a: "s = body @ ''::h'' @ hash \<and> length hash = 16
          \<and> (card (set hash) < 5 \<or> 15 < card (set hash))"
  show "\<not> rust_is_mangled (Some s)"
  proof (cases "body = []")
    case True
    with a have "length s = 19" by simp
    then show ?thesis
      by (simp add: rust_is_mangled_def hash_prefix_len_def hash_len_def)
  next
    case False
    from a have lh: "length hash = 16" by simp
    from rust_is_mangled_decomposed[OF lh False] a
    have "\<not> rust_is_mangled (Some (body @ ''::h'' @ hash))" by auto
    with a show ?thesis by simp
  qed
qed

theorem C4_rust_is_mangled_iff_witness:
  "rust_is_mangled (Some ''_$LT$a..b$GT$::h0123456789abcdee'')
   \<and> rust_mangled_spec ''_$LT$a..b$GT$::h0123456789abcdee''
   \<and> card (set ''aaaaaaaaaaaaaaaa'') < 5
   \<and> \<not> rust_is_mangled (Some ''a::haaaaaaaaaaaaaaaa'')
   \<and> 15 < card (set ''0123456789abcdef'')
   \<and> \<not> rust_is_mangled (Some ''a::h0123456789abcdef'')"
proof -
  let ?x = "''_$LT$a..b$GT$::h0123456789abcdee''"
  let ?y = "''a::haaaaaaaaaaaaaaaa''" and ?z = "''a::h0123456789abcdef''"
  have m: "rust_is_mangled (Some ?x)" by code_simp
  have c1: "card (set ''aaaaaaaaaaaaaaaa'') < 5" and c2: "15 < card (set ''0123456789abcdef'')"
    by code_simp+
  have d1: "?y = ''a'' @ ''::h'' @ ''aaaaaaaaaaaaaaaa'' \<and> length ''aaaaaaaaaaaaaaaa'' = 16
            \<and> (card (set ''aaaaaaaaaaaaaaaa'') < 5 \<or> 15 < card (set ''aaaaaaaaaaaaaaaa''))"
    using c1 by simp
  have d2: "?z = ''a'' @ ''::h'' @ ''0123456789abcdef'' \<and> length ''0123456789abcdef'' = 16
            \<and> (card (set ''0123456789abcdef'') < 5 \<or> 15 < card (set ''0123456789abcdef''))"
    using c2 by simp
  from C4_rust_is_mangled_iff[of ?x] m have "rust_mangled_spec ?x" by simp
  moreover from C4_rust_is_mangled_iff[of ?y] d1 have "\<not> rust_is_mangled (Some ?y)" by blast
  moreover from C4_rust_is_mangled_iff[of ?z] d2 have "\<not> rust_is_mangled (Some ?z)" by blast
  ultimately show ?thesis using m c1 c2 by blast
qed


subsection \<open>Claim C5: the documented Rust example\<close>

text \<open>
  Claim C5: the symbol of the source's own comment passes \<open>rust_is_mangled\<close>, and
  \<open>rust_demangle_sym\<close> rewrites its buffer to exactly
  \<open><std::sys::fd::FileDesc as core::ops::Drop>::drop\<close>: the \<open>::h\<close> and the sixteen
  hex digits of the hash are not part of the string the buffer holds afterwards.
\<close>

theorem C5_rust_example:
  "rust_is_mangled
     (Some ''_$LT$std..sys..fd..FileDesc$u20$as$u20$core..ops..Drop$GT$::drop::hc68340e1baa4987a'')
   \<and> map_sum id (map_option c_string)
       (rust_demangle_sym
          (Some ''_$LT$std..sys..fd..FileDesc$u20$as$u20$core..ops..Drop$GT$::drop::hc68340e1baa4987a''))
     = Inr (Some ''<std::sys::fd::FileDesc as core::ops::Drop>::drop'')"
  by code_simp


subsection \<open>Claim C6: header validation\<close>

text \<open>
  Claim C6: header validation is strict.  For every input whose first twelve bytes
  deviate from the fixed grammar, or whose header has tag digits \<open>0000\<close> with a
  non-zero priority digit, \<open>VG_(maybe_Z_demangle)\<close> returns False whatever follows,
  with empty strings behind \<open>*so\<close> and \<open>*fn\<close> and nothing stored to the other
  outputs.  The witness has tag \<open>0000\<close> with priority \<open>5\<close> and otherwise correct
  escaping, and a second header with a letter where a digit belongs.
\<close>

theorem C6_header_is_strict:
  assumes "\<not> z_header_grammar symb \<or> tag0_with_prio symb"
  shows "VG_maybe_Z_demangle symb rq =
         Inr \<lparr>ret = False, so = (if want_so rq then Some [] else None), fn = [],
              isWrap = None, eclassTag = None, eclassPrio = None\<rparr>"
  using assms by (auto simp add: VG_maybe_Z_demangle_def header_valid_iff)

theorem C6_header_is_strict_witness:
  "z_header_grammar ''_vgr00005ZZ_libcZdsoZa_malloc''
   \<and> tag0_with_prio ''_vgr00005ZZ_libcZdsoZa_malloc''
   \<and> VG_maybe_Z_demangle ''_vgr00005ZZ_libcZdsoZa_malloc'' all_outputs =
       Inr \<lparr>ret = False, so = Some [], fn = [], isWrap = None, eclassTag = None,
            eclassPrio = None\<rparr>
   \<and> \<not> z_header_grammar ''_vgr0000xZZ_libcZdsoZa_malloc''
   \<and> VG_maybe_Z_demangle ''_vgr0000xZZ_libcZdsoZa_malloc'' all_outputs =
       Inr \<lparr>ret = False, so = Some [], fn = [], isWrap = None, eclassTag = None,
            eclassPrio = None\<rparr>"
proof -
  let ?a = "''_vgr00005ZZ_libcZdsoZa_malloc''" and ?b = "''_vgr0000xZZ_libcZdsoZa_malloc''"
  have a: "z_header_grammar ?a" "tag0_with_prio ?a" and b: "\<not> z_header_grammar ?b"
    by code_simp+
  from a(2) have a': "\<not> z_header_grammar ?a \<or> tag0_with_prio ?a" by simp
  from b have b': "\<not> z_header_grammar ?b \<or> tag0_with_prio ?b" by simp
  from C6_header_is_strict[OF a', of all_outputs] C6_header_is_strict[OF b', of all_outputs] a b
  show ?thesis by (simp add: all_outputs_def)
qed


subsection \<open>Claim C7: where the result points\<close>

text \<open>
  Claim C7: let \<open>orig\<close> be the string before stage 1 (the caller's, or the function
  name the Z-decoder produced).  If \<open>do_cxx_demangling\<close> is unset, or \<open>orig\<close> does
  not begin with \<open>_Z\<close>, or the C++ demangler returns no result for it, then
  \<open>VG_(demangle)\<close> returns and \<open>*result\<close> is \<open>orig\<close>; and whenever \<open>*result\<close>
  points to the heap block, C++ demangling was asked for, \<open>orig\<close> begins with \<open>_Z\<close>
  and the C++ demangler returned a result for it.
\<close>

theorem C7_result_pointer:
  assumes "undo_Z do_z_demangling orig0 = Inr orig"
  shows "((\<not> do_cxx_demangling \<or> \<not> begins_with_marker orig
           \<or> (\<exists>s. orig = Some s \<and> cplus_demangle s = None))
          \<longrightarrow> (\<exists>r. VG_demangle clo_demangle cplus_demangle demangled
                        do_cxx_demangling do_z_demangling orig0 = Inr r
                    \<and> result r = To_orig orig))
       \<and> (\<forall>r d. VG_demangle clo_demangle cplus_demangle demangled
                     do_cxx_demangling do_z_demangling orig0 = Inr r
                 \<and> result r = To_demangled d
                 \<longrightarrow> do_cxx_demangling \<and> begins_with_marker orig
                     \<and> (\<exists>s. orig = Some s \<and> cplus_demangle s \<noteq> None))"
proof (cases "do_cxx_demangling \<and> clo_demangle \<and> begins_with_marker orig")
  case False
  then have "\<not> do_cxx_demangling \<or> \<not> clo_demangle \<or> \<not> begins_with_marker orig" by blast
  from VG_demangle_skips_stage1[OF assms this] show ?thesis by simp
next
  case True
  then obtain s where s: "orig = Some s" by (cases orig) (auto simp: begins_with_marker_def)
  from True s assms have eq: "VG_demangle clo_demangle cplus_demangle demangled
      do_cxx_demangling do_z_demangling orig0 = stage1 cplus_demangle demangled s"
    by (intro VG_demangle_enters_stage1) simp_all
  show ?thesis
  proof (cases "cplus_demangle s")
    case None
    with True s eq show ?thesis by (simp add: stage1_no_result)
  next
    case (Some d)
    with True s show ?thesis by simp
  qed
qed

theorem C7_result_pointer_witness:
  "undo_Z True (Some ''_vgr00000ZU_libcZdsoZa_malloc'') = Inr (Some ''malloc'')
   \<and> \<not> begins_with_marker (Some ''malloc'')
   \<and> (\<exists>r. VG_demangle True (map_of [(''_Z3foov'', ''foo()'')]) None True True
              (Some ''_vgr00000ZU_libcZdsoZa_malloc'') = Inr r
          \<and> result r = To_orig (Some ''malloc''))
   \<and> undo_Z False (Some ''_Z3barv'') = Inr (Some ''_Z3barv'')
   \<and> map_of [(''_Z3foov'', ''foo()'')] ''_Z3barv'' = None
   \<and> (\<exists>r. VG_demangle True (map_of [(''_Z3foov'', ''foo()'')]) None True False
              (Some ''_Z3barv'') = Inr r
          \<and> result r = To_orig (Some ''_Z3barv''))
   \<and> VG_demangle True (map_of [(''_Z3foov'', ''foo()'')]) None True False (Some ''_Z3foov'')
       = Inr \<lparr>result = To_demangled ''foo()'', demangled_after = Some ''foo()'',
              events = [Cplus_demangle ''_Z3foov'']\<rparr>
   \<and> begins_with_marker (Some ''_Z3foov'')
   \<and> map_of [(''_Z3foov'', ''foo()'')] ''_Z3foov'' \<noteq> None"
proof -
  let ?cxx = "map_of [(''_Z3foov'', ''foo()'')]"
  have a: "undo_Z True (Some ''_vgr00000ZU_libcZdsoZa_malloc'') = Inr (Some ''malloc'')"
    and na: "\<not> begins_with_marker (Some ''malloc'')"
    and b: "undo_Z False (Some ''_Z3barv'') = Inr (Some ''_Z3barv'')"
    and nb: "?cxx ''_Z3barv'' = None"
    and c: "undo_Z False (Some ''_Z3foov'') = Inr (Some ''_Z3foov'')"
    and e: "VG_demangle True ?cxx None True False (Some ''_Z3foov'')
       = Inr \<lparr>result = To_demangled ''foo()'', demangled_after = Some ''foo()'',
              events = [Cplus_demangle ''_Z3foov'']\<rparr>"
    by code_simp+
  note ta = C7_result_pointer[OF a, of True ?cxx True None]
    and tb = C7_result_pointer[OF b, of True ?cxx True None]
    and tc = C7_result_pointer[OF c, of True ?cxx True None]
  from tc e have "begins_with_marker (Some ''_Z3foov'') \<and> ?cxx ''_Z3foov'' \<noteq> None"
    by simp
  moreover from ta na have "\<exists>r. VG_demangle True ?cxx None True True
              (Some ''_vgr00000ZU_libcZdsoZa_malloc'') = Inr r
          \<and> result r = To_orig (Some ''malloc'')"
    by blast
  moreover from tb nb have "\<exists>r. VG_demangle True ?cxx None True False
              (Some ''_Z3barv'') = Inr r \<and> result r = To_orig (Some ''_Z3barv'')"
    by blast
  ultimately show ?thesis using a na b nb e by simp
qed


subsection \<open>Claim C8: the outputs of a failed decode\<close>

text \<open>
  Claim C8, as stated: when \<open>VG_(maybe_Z_demangle)\<close> returns False, no output
  parameter has been given a partially decoded value.  It has: on an unknown selector
  in the function name the function returns False after it stored \<open>isWrap\<close>,
  \<open>eclassTag\<close> and \<open>eclassPrio\<close>, and \<open>*so\<close> and \<open>*fn\<close> point to what was decoded
  up to the error.
\<close>

theorem C8_counterexample:
  "VG_maybe_Z_demangle ''_vgw12345ZZ_libc_maZq'' all_outputs =
     Inr \<lparr>ret = False, so = Some ''libc'', fn = ''ma'', isWrap = Some True,
          eclassTag = Some 1234, eclassPrio = Some 5\<rparr>"
  by code_simp

text \<open>
  Claim C8, amended: when \<open>VG_(maybe_Z_demangle)\<close> returns False because the header
  is rejected, \<open>*so\<close> and \<open>*fn\<close> point to empty strings and \<open>isWrap\<close>,
  \<open>eclassTag\<close> and \<open>eclassPrio\<close> have not been stored to.  When it returns False
  behind an accepted header, these three have been stored from the header (each if its
  pointer was passed), \<open>*so\<close> points to the soname field decoded as far as it goes,
  and \<open>*fn\<close> to the function name field decoded as far as it goes, or to the empty
  string when the failure is in the soname field; only the return value tells the
  failure.
\<close>

theorem C8_outputs_on_failure:
  assumes "VG_maybe_Z_demangle symb rq = Inr r" and "\<not> ret r"
  shows "if z_header_grammar symb \<and> \<not> tag0_with_prio symb
         then isWrap r = (if want_isWrap rq then Some (symb ! 3 = CHR ''w'') else None)
              \<and> eclassTag r = (if want_eclassTag rq
                                then Some (read_decimal [symb ! 4, symb ! 5, symb ! 6, symb ! 7])
                                else None)
              \<and> eclassPrio r = (if want_eclassPrio rq then Some (read_decimal [symb ! 8])
                                 else None)
              \<and> so r = (if want_so rq then Some (z_decode_partial (soname_field symb))
                         else None)
              \<and> fn r = (if CHR ''_'' \<in> set (drop 12 symb) \<and> z_decode (soname_field symb) \<noteq> None
                         then z_decode_partial (fnname_field symb) else [])
         else r = \<lparr>ret = False, so = (if want_so rq then Some [] else None), fn = [],
                   isWrap = None, eclassTag = None, eclassPrio = None\<rparr>"
proof (cases "z_header_grammar symb \<and> \<not> tag0_with_prio symb")
  case False
  with assms(1) show ?thesis
    by (auto simp add: VG_maybe_Z_demangle_def header_valid_iff)
next
  case True
  then have len: "12 \<le> length symb" by (simp add: z_header_grammar_def)
  show ?thesis
  proof (cases "raw_VG_Z_prefix symb")
    case True
    with \<open>z_header_grammar symb \<and> \<not> tag0_with_prio symb\<close> assms(1) show ?thesis
      using raw_prefix_aborts[of symb rq] by simp
  next
    case False
    with True assms(1) obtain o1 where scan: "z_scan symb rq o1 = Inr r"
      and o1: "isWrap o1 = (if want_isWrap rq then Some (symb ! 3 = CHR ''w'') else None)"
        "eclassTag o1 = (if want_eclassTag rq
                         then Some (read_decimal [symb ! 4, symb ! 5, symb ! 6, symb ! 7])
                         else None)"
        "eclassPrio o1 = (if want_eclassPrio rq then Some (read_decimal [symb ! 8]) else None)"
      using demangle_after_header[of symb rq] by auto
    from z_scan_keeps_scalars[OF scan] z_scan_failure_strings[OF len scan assms(2)] o1 True
    show ?thesis by simp
  qed
qed

theorem C8_outputs_on_failure_witness:
  "VG_maybe_Z_demangle ''_vgw12345ZZ_libc_maZq'' all_outputs =
     Inr \<lparr>ret = False, so = Some ''libc'', fn = ''ma'', isWrap = Some True,
          eclassTag = Some 1234, eclassPrio = Some 5\<rparr>
   \<and> z_header_grammar ''_vgw12345ZZ_libc_maZq''
   \<and> \<not> tag0_with_prio ''_vgw12345ZZ_libc_maZq''
   \<and> read_decimal ''1234'' = 1234 \<and> read_decimal ''5'' = 5
   \<and> z_decode_partial (soname_field ''_vgw12345ZZ_libc_maZq'') = ''libc''
   \<and> z_decode_partial (fnname_field ''_vgw12345ZZ_libc_maZq'') = ''ma''
   \<and> VG_maybe_Z_demangle ''_vgw00005ZZ_libc_maZq'' all_outputs =
     Inr \<lparr>ret = False, so = Some [], fn = [], isWrap = None, eclassTag = None,
          eclassPrio = None\<rparr>
   \<and> tag0_with_prio ''_vgw00005ZZ_libc_maZq''"
proof -
  let ?a = "''_vgw12345ZZ_libc_maZq''" and ?b = "''_vgw00005ZZ_libc_maZq''"
  let ?ra = "\<lparr>ret = False, so = Some ''libc'', fn = ''ma'', isWrap = Some True,
          eclassTag = Some 1234, eclassPrio = Some 5\<rparr>"
  let ?rb = "\<lparr>ret = False, so = Some [], fn = [], isWrap = None, eclassTag = None,
          eclassPrio = None\<rparr>"
  have a: "VG_maybe_Z_demangle ?a all_outputs = Inr ?ra"
    and b: "VG_maybe_Z_demangle ?b all_outputs = Inr ?rb"
    by code_simp+
  have ha: "z_header_grammar ?a" "\<not> tag0_with_prio ?a" and hb: "tag0_with_prio ?b"
    and rd: "read_decimal ''1234'' = 1234" "read_decimal ''5'' = 5"
      "z_decode_partial (soname_field ?a) = ''libc''"
      "z_decode_partial (fnname_field ?a) = ''ma''"
    by code_simp+
  have la: "\<not> ret ?ra" and lb: "\<not> ret ?rb" by simp_all
  note C8_outputs_on_failure[OF a la] C8_outputs_on_failure[OF b lb]
  with a b ha hb rd show ?thesis by simp
qed


subsection \<open>Claim C9: output length\<close>

text \<open>
  Claim C9: the decoded output is never longer than the input.  For every input of
  \<open>VG_(maybe_Z_demangle)\<close> that returns, the decoded soname and the decoded function
  name are each at most as long as the symbol; together they are at most as long as the
  symbol without its twelve header bytes, so every byte the \<open>EMIT\<close> macros store, the
  two terminators of the last one included, lies inside a buffer of \<open>strlen(sym) + 1\<close>
  bytes.  For every input of \<open>rust_demangle_sym\<close>, which by its \<open>INPUT\<close> comment and
  the guard at its only call is a symbol that \<open>rust_is_mangled\<close> accepts, \<open>out\<close> has
  not gone beyond \<open>never_after\<close> at the final assertion, so the function returns; the
  block keeps its size, and the string it holds afterwards is NUL-terminated and not
  longer than the input.
\<close>

theorem C9_output_fits:
  "(\<forall>r. VG_maybe_Z_demangle symb rq = Inr r \<longrightarrow>
         (case so r of None \<Rightarrow> True | Some sn \<Rightarrow> length sn \<le> length symb)
         \<and> length (fn r) \<le> length symb
         \<and> (case so r of None \<Rightarrow> 0 | Some sn \<Rightarrow> length sn) + length (fn r) \<le> length symb - 12)
   \<and> (rust_is_mangled (Some symb) \<longrightarrow>
        out_cursor (rust_demangle_body symb) \<le> length symb
        \<and> rust_demangle_sym (Some symb) \<noteq> Inl Assert_never_after
        \<and> (\<exists>blk. rust_demangle_sym (Some symb) = Inr (Some blk)
               \<and> length blk = length symb + 1
               \<and> length (c_string blk) \<le> length symb
               \<and> length (c_string blk) < length blk
               \<and> blk ! length (c_string blk) = NUL))"
proof (intro conjI allI impI)
  fix r assume r: "VG_maybe_Z_demangle symb rq = Inr r"
  note l = maybe_Z_demangle_length[OF r]
  from l show "case so r of None \<Rightarrow> True | Some sn \<Rightarrow> length sn \<le> length symb"
    by (simp split: option.splits)
  from l show "length (fn r) \<le> length symb" by simp
  from l show "(case so r of None \<Rightarrow> 0 | Some sn \<Rightarrow> length sn) + length (fn r) \<le> length symb - 12" .
next
  assume m: "rust_is_mangled (Some symb)"
  from rust_is_mangledD[OF m] have ne: "symb \<noteq> []" by auto
  from rust_demangle_body_bounds[OF ne]
  show "out_cursor (rust_demangle_body symb) \<le> length symb" by simp
  from rust_demangle_sym_fits[OF ne]
  obtain blk where b: "rust_demangle_sym (Some symb) = Inr (Some blk)"
    "length blk = length symb + 1" "length (c_string blk) < length symb"
    "blk ! length (c_string blk) = NUL"
    by blast
  from b(1) show "rust_demangle_sym (Some symb) \<noteq> Inl Assert_never_after" by simp
  from b show "\<exists>blk. rust_demangle_sym (Some symb) = Inr (Some blk)
               \<and> length blk = length symb + 1
               \<and> length (c_string blk) \<le> length symb
               \<and> length (c_string blk) < length blk
               \<and> blk ! length (c_string blk) = NUL"
    by auto
qed

theorem C9_output_fits_witness:
  "VG_maybe_Z_demangle ''_vgr00000ZZ_libcZdsoZa_malloc'' all_outputs =
     Inr \<lparr>ret = True, so = Some ''libc.so*'', fn = ''malloc'', isWrap = Some False,
          eclassTag = Some 0, eclassPrio = Some 0\<rparr>
   \<and> length ''libc.so*'' + length ''malloc'' \<le> length ''_vgr00000ZZ_libcZdsoZa_malloc'' - 12
   \<and> rust_is_mangled (Some ''_$LT$a$GT$::h0123456789abcdee'')
   \<and> out_cursor (rust_demangle_body ''_$LT$a$GT$::h0123456789abcdee'')
        \<le> length ''_$LT$a$GT$::h0123456789abcdee''
   \<and> (\<exists>blk. rust_demangle_sym (Some ''_$LT$a$GT$::h0123456789abcdee'') = Inr (Some blk)
           \<and> length blk = length ''_$LT$a$GT$::h0123456789abcdee'' + 1
           \<and> length (c_string blk) \<le> length ''_$LT$a$GT$::h0123456789abcdee''
           \<and> length (c_string blk) < length blk
           \<and> blk ! length (c_string blk) = NUL)"
proof -
  let ?z = "''_vgr00000ZZ_libcZdsoZa_malloc''" and ?x = "''_$LT$a$GT$::h0123456789abcdee''"
  let ?r = "\<lparr>ret = True, so = Some ''libc.so*'', fn = ''malloc'', isWrap = Some False,
          eclassTag = Some 0, eclassPrio = Some 0\<rparr>"
  have z: "VG_maybe_Z_demangle ?z all_outputs = Inr ?r" by code_simp
  have x: "rust_is_mangled (Some ?x)" by code_simp
  from C9_output_fits[of ?z all_outputs] z
  have "length ''libc.so*'' + length ''malloc'' \<le> length ?z - 12" by simp
  moreover from C9_output_fits[of ?x] x
  have "out_cursor (rust_demangle_body ?x) \<le> length ?x
        \<and> (\<exists>blk. rust_demangle_sym (Some ?x) = Inr (Some blk)
           \<and> length blk = length ?x + 1
           \<and> length (c_string blk) \<le> length ?x
           \<and> length (c_string blk) < length blk
           \<and> blk ! length (c_string blk) = NUL)" by blast
  ultimately show ?thesis using z x by blast
qed


subsection \<open>Claim C10: the failure branch of the Rust decoder\<close>

text \<open>
  Claim C10: for every non-NULL symbol that \<open>rust_is_mangled\<close> accepts,
  \<open>rust_demangle_sym\<close> never goes to its label \<open>fail\<close>; it returns, and the string
  it leaves in the buffer contains no \<open>?\<close>.
\<close>

theorem C10_never_fails:
  assumes "rust_is_mangled (Some symb)"
  shows "\<not> went_to_fail (rust_demangle_body symb)
         \<and> (\<exists>blk. rust_demangle_sym (Some symb) = Inr (Some blk)
               \<and> CHR ''?'' \<notin> set (c_string blk))"
  using rust_demangle_no_fail[OF assms] rust_demangle_no_placeholder[OF assms] by blast

theorem C10_never_fails_witness:
  "rust_is_mangled
     (Some ''_$LT$std..sys..fd..FileDesc$u20$as$u20$core..ops..Drop$GT$::drop::hc68340e1baa4987a'')
   \<and> \<not> went_to_fail (rust_demangle_body
       ''_$LT$std..sys..fd..FileDesc$u20$as$u20$core..ops..Drop$GT$::drop::hc68340e1baa4987a'')
   \<and> (\<exists>blk. rust_demangle_sym
        (Some ''_$LT$std..sys..fd..FileDesc$u20$as$u20$core..ops..Drop$GT$::drop::hc68340e1baa4987a'')
         = Inr (Some blk) \<and> CHR ''?'' \<notin> set (c_string blk))"
proof -
  let ?x = "''_$LT$std..sys..fd..FileDesc$u20$as$u20$core..ops..Drop$GT$::drop::hc68340e1baa4987a''"
  have m: "rust_is_mangled (Some ?x)" by code_simp
  from C10_never_fails[OF m] m show ?thesis by blast
qed

end
